theory Spec2Isabelle
  imports Main "HOL-Library.Sublist" "HOL-Library.Multiset"
begin

section \<open>Go strings\<close>

text \<open>
  A Go string is a sequence of bytes; \<^typ>\<open>string\<close> is a list of 8-bit characters, so
  \<open>len(s)\<close> is \<^term>\<open>length s\<close>, \<open>s[:n]\<close> is \<^term>\<open>take n s\<close> and \<open>a + b\<close> is
  \<^term>\<open>a @ b\<close>. Text outside ASCII is written as its UTF-8 bytes, the way the Go
  compiler stores the literals of the source files.
\<close>

definition strings_Contains :: "string \<Rightarrow> string \<Rightarrow> bool" where
  \<comment> \<open>\<open>strings.Contains(s, substr)\<close>: \<open>substr\<close> occurs in \<open>s\<close> as a contiguous run of bytes.\<close>
  "strings_Contains s substr = sublist substr s"

definition strings_HasPrefix :: "string \<Rightarrow> string \<Rightarrow> bool" where
  "strings_HasPrefix s pre = prefix pre s"

definition removeByte :: "char \<Rightarrow> string \<Rightarrow> string" where
  \<comment> \<open>\<open>strings.ReplaceAll(s, old, "")\<close> for a one-byte \<open>old\<close>: every such byte is dropped.\<close>
  "removeByte b s = filter (\<lambda>c. c \<noteq> b) s"

section \<open>api/server.go: the restriction marker\<close>

definition publicFormMarker :: string where
  \<comment> \<open>The four characters U+516C U+5F00 U+5F62 U+5F0F.\<close>
  "publicFormMarker =
     [CHR 0xE5, CHR 0x85, CHR 0xAC, CHR 0xE5, CHR 0xBC, CHR 0x80,
      CHR 0xE5, CHR 0xBD, CHR 0xA2, CHR 0xE5, CHR 0xBC, CHR 0x8F]"

definition fullColon :: string where
  "fullColon = [CHR 0xEF, CHR 0xBC, CHR 0x9A]"

definition halfColon :: string where
  "halfColon = '':''"

definition notPublic :: string where
  \<comment> \<open>U+4E0D U+4E88 U+516C U+5F00\<close>
  "notPublic =
     [CHR 0xE4, CHR 0xB8, CHR 0x8D, CHR 0xE4, CHR 0xBA, CHR 0x88,
      CHR 0xE5, CHR 0x85, CHR 0xAC, CHR 0xE5, CHR 0xBC, CHR 0x80]"

definition applyPublic :: string where
  \<comment> \<open>U+4F9D U+7533 U+8BF7 U+516C U+5F00\<close>
  "applyPublic =
     [CHR 0xE4, CHR 0xBE, CHR 0x9D, CHR 0xE7, CHR 0x94, CHR 0xB3, CHR 0xE8, CHR 0xAF,
      CHR 0xB7, CHR 0xE5, CHR 0x85, CHR 0xAC, CHR 0xE5, CHR 0xBC, CHR 0x80]"

definition notPublic2 :: string where
  \<comment> \<open>U+4E0D U+516C U+5F00\<close>
  "notPublic2 =
     [CHR 0xE4, CHR 0xB8, CHR 0x8D, CHR 0xE5, CHR 0x85, CHR 0xAC, CHR 0xE5, CHR 0xBC, CHR 0x80]"

definition qualifiedMarkers :: "string list" where
  \<comment> \<open>The six phrasings tested by \<open>checkPublicFormInContent\<close>, in the order of the source.\<close>
  "qualifiedMarkers =
     [publicFormMarker @ fullColon @ notPublic,
      publicFormMarker @ fullColon @ applyPublic,
      publicFormMarker @ fullColon @ notPublic2,
      publicFormMarker @ halfColon @ notPublic,
      publicFormMarker @ halfColon @ applyPublic,
      publicFormMarker @ halfColon @ notPublic2]"

definition normalizeContent :: "string \<Rightarrow> string" where
  \<comment> \<open>The four \<open>ReplaceAll\<close> calls: space, newline, carriage return, tab.\<close>
  "normalizeContent content =
     removeByte CHR 0x09 (removeByte CHR 0x0D (removeByte CHR 0x0A (removeByte CHR 0x20 content)))"

definition checkPublicFormInContent :: "string \<Rightarrow> bool" where
  "checkPublicFormInContent content =
     (if content = [] then False
      else if strings_Contains content publicFormMarker then True
      else if list_ex (strings_Contains content) qualifiedMarkers then True
      else (let normalizedContent = normalizeContent content in
            if strings_Contains normalizedContent publicFormMarker then True
            else list_ex (strings_Contains normalizedContent) qualifiedMarkers))"

section \<open>Citation markers\<close>

definition circleNumbers :: "string list" where
  \<comment> \<open>U+2460 .. U+2469, the table of both \<open>getCircleNumber\<close> and \<open>extractUsedAnnotations\<close>.\<close>
  "circleNumbers =
     [[CHR 0xE2, CHR 0x91, CHR 0xA0], [CHR 0xE2, CHR 0x91, CHR 0xA1],
      [CHR 0xE2, CHR 0x91, CHR 0xA2], [CHR 0xE2, CHR 0x91, CHR 0xA3],
      [CHR 0xE2, CHR 0x91, CHR 0xA4], [CHR 0xE2, CHR 0x91, CHR 0xA5],
      [CHR 0xE2, CHR 0x91, CHR 0xA6], [CHR 0xE2, CHR 0x91, CHR 0xA7],
      [CHR 0xE2, CHR 0x91, CHR 0xA8], [CHR 0xE2, CHR 0x91, CHR 0xA9]]"

fun markUsed :: "string \<Rightarrow> nat \<Rightarrow> string list \<Rightarrow> (nat \<rightharpoonup> bool) \<Rightarrow> (nat \<rightharpoonup> bool)" where
  \<comment> \<open>The loop \<open>for i, circleNum := range circleNumbers\<close>, from index \<open>i\<close> on.\<close>
  "markUsed answer i [] used = used"
| "markUsed answer i (circleNum # rest) used =
     markUsed answer (Suc i) rest
       (if strings_Contains answer circleNum then used(i + 1 \<mapsto> True) else used)"

definition extractUsedAnnotations :: "string \<Rightarrow> (nat \<rightharpoonup> bool)" where
  "extractUsedAnnotations answer = markUsed answer 0 circleNumbers Map.empty"

definition usedAt :: "(nat \<rightharpoonup> bool) \<Rightarrow> nat \<Rightarrow> bool" where
  \<comment> \<open>Reading a Go \<open>map[int]bool\<close>: a missing key reads as \<open>false\<close>.\<close>
  "usedAt used i = (case used i of Some b \<Rightarrow> b | None \<Rightarrow> False)"

fun natDigits :: "nat \<Rightarrow> string" where
  \<comment> \<open>The decimal digits that \<open>%d\<close> prints for a number that is not negative.\<close>
  "natDigits n =
     (if n < 10 then [''0123456789'' ! n]
      else natDigits (n div 10) @ [''0123456789'' ! (n mod 10)])"

definition fmtInt :: "int \<Rightarrow> string" where
  "fmtInt n = (if n < 0 then ''-'' @ natDigits (nat (- n)) else natDigits (nat n))"

definition getCircleNumber :: "int \<Rightarrow> string" where
  \<comment> \<open>rag.go: the marker of passage \<open>n\<close>; beyond the table, \<open>fmt.Sprintf("(%d)", n)\<close>.\<close>
  "getCircleNumber n =
     (if n \<ge> 1 \<and> n \<le> int (length circleNumbers) then circleNumbers ! nat (n - 1)
      else ''('' @ fmtInt n @ '')'')"

section \<open>UTF-8: \<open>[]rune(s)\<close>, \<open>range s\<close> and \<open>string(r)\<close>\<close>

text \<open>
  A rune is a code point, here a natural number. \<open>decodeRune\<close> follows
  \<open>utf8.DecodeRuneInString\<close>: the first byte selects the length and the range accepted
  for the second byte, every byte that does not start a well-formed sequence decodes to
  \<open>RuneError\<close> with width 1. The masks \<open>s0 & 0x1F\<close>, \<open>s1 & 0x3F\<close> and the shifts are
  written with \<open>mod\<close> and multiplication.
\<close>

definition RuneError :: nat where
  "RuneError = 0xFFFD"

fun decodeRune :: "string \<Rightarrow> nat \<times> nat" where
  "decodeRune [] = (RuneError, 0)"
| "decodeRune (c0 # s) =
     (let s0 = (of_char c0 :: nat) in
      if s0 < 0x80 then (s0, 1)
      else if s0 < 0xC2 \<or> 0xF4 < s0 then (RuneError, 1)
      else
        let sz = (if s0 < 0xE0 then 2 else if s0 < 0xF0 then 3 else 4 :: nat);
            lo = (if s0 = 0xE0 then 0xA0 else if s0 = 0xF0 then 0x90 else 0x80 :: nat);
            hi = (if s0 = 0xED then 0x9F else if s0 = 0xF4 then 0x8F else 0xBF :: nat)
        in
        if length (c0 # s) < sz then (RuneError, 1)
        else
          let s1 = (of_char (s ! 0) :: nat) in
          if s1 < lo \<or> hi < s1 then (RuneError, 1)
          else if sz \<le> 2 then ((s0 mod 32) * 64 + s1 mod 64, 2)
          else
            let s2 = (of_char (s ! 1) :: nat) in
            if s2 < 0x80 \<or> 0xBF < s2 then (RuneError, 1)
            else if sz \<le> 3 then ((s0 mod 16) * 4096 + (s1 mod 64) * 64 + s2 mod 64, 3)
            else
              let s3 = (of_char (s ! 2) :: nat) in
              if s3 < 0x80 \<or> 0xBF < s3 then (RuneError, 1)
              else ((s0 mod 8) * 262144 + (s1 mod 64) * 4096 + (s2 mod 64) * 64 + s3 mod 64, 4))"

fun runes :: "string \<Rightarrow> nat list" where
  \<comment> \<open>\<open>[]rune(s)\<close>, and the runes that \<open>for _, r := range s\<close> visits.\<close>
  "runes [] = []"
| "runes (c # s) = (case decodeRune (c # s) of (r, w) \<Rightarrow> r # runes (drop (w - 1) s))"

definition encodeRune :: "nat \<Rightarrow> string" where
  \<comment> \<open>\<open>string(r)\<close> for one rune: surrogates and values past U+10FFFF encode as U+FFFD.\<close>
  "encodeRune r =
     (if r \<le> 0x7F then [char_of r]
      else if r \<le> 0x7FF then [char_of (0xC0 + r div 64), char_of (0x80 + r mod 64)]
      else if 0x10FFFF < r \<or> (0xD800 \<le> r \<and> r \<le> 0xDFFF) then [CHR 0xEF, CHR 0xBF, CHR 0xBD]
      else if r \<le> 0xFFFF then
        [char_of (0xE0 + r div 4096), char_of (0x80 + (r div 64) mod 64), char_of (0x80 + r mod 64)]
      else
        [char_of (0xF0 + r div 262144), char_of (0x80 + (r div 4096) mod 64),
         char_of (0x80 + (r div 64) mod 64), char_of (0x80 + r mod 64)])"

definition stringOfRunes :: "nat list \<Rightarrow> string" where
  \<comment> \<open>\<open>string(rs)\<close> for a rune slice.\<close>
  "stringOfRunes rs = concat (map encodeRune rs)"

section \<open>rag/rag.go: re-ranking and relevance filtering\<close>

text \<open>
  \<open>strings.ToLower\<close> belongs to the Go library; the functions below take it as the
  parameter \<open>lower\<close>, and everything proved about them holds for whatever function it is.
  \<open>lowerASCII\<close> is what it computes on ASCII text and on text whose other characters have
  no lower case (Chinese characters, the circled digits); concrete evaluations use it.
\<close>

definition lowerASCII :: "string \<Rightarrow> string" where
  "lowerASCII s =
     map (\<lambda>c. if (65::nat) \<le> of_char c \<and> (of_char c :: nat) \<le> 90
               then char_of ((of_char c :: nat) + 32) else c) s"

record Document =
  PageContent :: string
  MetaSource :: "string option"  \<comment> \<open>\<open>Metadata["source"].(string)\<close>, when present and a string\<close>
  MetaFileName :: "string option"  \<comment> \<open>\<open>Metadata["file_name"].(string)\<close>\<close>

definition rerankStopWords :: "string list" where
  \<comment> \<open>The keys of \<open>stopWords\<close> in \<open>reRankResults\<close>: nine single characters.\<close>
  "rerankStopWords =
     [[CHR 0xE7, CHR 0x9A, CHR 0x84], [CHR 0xE6, CHR 0x9C, CHR 0x89], [CHR 0xE5, CHR 0x87, CHR 0xA0],
      [CHR 0xE6, CHR 0x9D, CHR 0xA1], [CHR 0xE6, CHR 0x98, CHR 0xAF], [CHR 0xE5, CHR 0x9C, CHR 0xA8],
      [CHR 0xE5, CHR 0x92, CHR 0x8C], [CHR 0xE6, CHR 0x88, CHR 0x96], [CHR 0xE4, CHR 0xB8, CHR 0x8E]]"

definition filterStopWords :: "string list" where
  \<comment> \<open>The keys of \<open>stopWords\<close> in \<open>filterRelevantResults\<close>: the nine above, four words of two
      characters, and the punctuation marks in their full-width and ASCII forms.\<close>
  "filterStopWords = rerankStopWords @
     [[CHR 0xE4, CHR 0xBB, CHR 0x80, CHR 0xE4, CHR 0xB9, CHR 0x88],
      [CHR 0xE6, CHR 0x80, CHR 0x8E, CHR 0xE4, CHR 0xB9, CHR 0x88],
      [CHR 0xE5, CHR 0xA6, CHR 0x82, CHR 0xE4, CHR 0xBD, CHR 0x95],
      [CHR 0xE5, CHR 0x93, CHR 0xAA, CHR 0xE4, CHR 0xBA, CHR 0x9B],
      [CHR 0xEF, CHR 0xBC, CHR 0x9F], ''?'', [CHR 0xEF, CHR 0xBC, CHR 0x9A], '':'',
      [CHR 0xEF, CHR 0xBC, CHR 0x8C], '','', [CHR 0xE3, CHR 0x80, CHR 0x82], ''.'',
      [CHR 0xEF, CHR 0xBC, CHR 0x81], ''!'']"

definition hasStopWord :: "string \<Rightarrow> bool" where
  \<comment> \<open>\<open>for _, r := range phrase { if stopWords[string(r)] ... }\<close>\<close>
  "hasStopWord phrase = list_ex (\<lambda>r. encodeRune r \<in> set rerankStopWords) (runes phrase)"

definition phrasesAt :: "nat list \<Rightarrow> nat \<Rightarrow> string list" where
  \<comment> \<open>The inner loop: \<open>length\<close> runs over 2, 3, 4 while \<open>i+length <= len(runes)\<close>.\<close>
  "phrasesAt rs i =
     map (\<lambda>len. stringOfRunes (take len (drop i rs)))
       (takeWhile (\<lambda>len. i + len \<le> length rs) [2, 3, 4])"

definition extractKeywords :: "string \<Rightarrow> string list" where
  \<comment> \<open>The outer loop \<open>for i := 0; i < len(runes)-1; i++\<close>; no pass when there are no runes.\<close>
  "extractKeywords lowerQuestion =
     (let rs = runes lowerQuestion in
      concat (map (\<lambda>i. filter (\<lambda>phrase. \<not> hasStopWord phrase) (phrasesAt rs i))
                  [0 ..< length rs - 1]))"

definition rerankKeywords :: "string \<Rightarrow> string list" where
  \<comment> \<open>\<open>if len(keywords) == 0 { keywords = []string{fullPhrase} }\<close>\<close>
  "rerankKeywords lowerQuestion =
     (let keywords = extractKeywords lowerQuestion in
      if keywords = [] then [lowerQuestion] else keywords)"

definition phraseWithoutStopWords :: "string \<Rightarrow> string" where
  "phraseWithoutStopWords lowerQuestion =
     concat (map encodeRune
       (filter (\<lambda>r. encodeRune r \<notin> set rerankStopWords) (runes lowerQuestion)))"

definition keywordMatches :: "string \<Rightarrow> string \<Rightarrow> bool" where
  "keywordMatches lowerContent keyword =
     (strings_Contains (removeByte CHR '' '' lowerContent) (removeByte CHR '' '' keyword)
      \<or> strings_Contains lowerContent keyword)"

definition keywordBonus :: "string \<Rightarrow> string \<Rightarrow> bool" where
  "keywordBonus lowerContent keyword =
     (strings_HasPrefix lowerContent keyword \<or> strings_Contains lowerContent (keyword @ '' ''))"

fun scoreKeywords :: "string \<Rightarrow> string list \<Rightarrow> int \<times> nat \<Rightarrow> int \<times> nat" where
  \<comment> \<open>The loop over \<open>keywords\<close>, on the pair \<open>(score, matchedKeywords)\<close>.\<close>
  "scoreKeywords lowerContent [] acc = acc"
| "scoreKeywords lowerContent (keyword # rest) (score, matched) =
     scoreKeywords lowerContent rest
       (if keywordMatches lowerContent keyword
        then (score + 20 + (if keywordBonus lowerContent keyword then 10 else 0), matched + 1)
        else (score, matched))"

definition docScore :: "string \<Rightarrow> string list \<Rightarrow> string \<Rightarrow> int" where
  \<comment> \<open>The score of one passage before its index is subtracted. Go's \<open>int\<close> has 64 bits;
      the score is at most 230 plus 30 for each keyword and stays far inside them.\<close>
  "docScore lowerQuestion keywords lowerContent =
     (let fullPhrase = lowerQuestion;
          score0 = (if strings_Contains lowerContent fullPhrase then 100 else 0);
          phrase = phraseWithoutStopWords lowerQuestion;
          contentNoSpace = removeByte CHR '' '' lowerContent;
          score1 = (if phrase \<noteq> [] \<and> (strings_Contains lowerContent phrase
                        \<or> strings_Contains contentNoSpace phrase)
                    then score0 + 80 else score0)
      in case scoreKeywords lowerContent keywords (score1, 0) of
           (score2, matchedKeywords) \<Rightarrow>
             if matchedKeywords = length keywords \<and> length keywords > 0 then score2 + 50
             else score2)"

record scoredDoc =
  sd_doc :: Document
  sd_score :: int  \<comment> \<open>the score minus the index\<close>
  sd_index :: nat

fun scoreDocs ::
  "(string \<Rightarrow> string) \<Rightarrow> string \<Rightarrow> string list \<Rightarrow> nat \<Rightarrow> Document list \<Rightarrow> scoredDoc list" where
  \<comment> \<open>\<open>for i, doc := range allResults\<close>, from index \<open>i\<close> on.\<close>
  "scoreDocs lower lowerQuestion keywords i [] = []"
| "scoreDocs lower lowerQuestion keywords i (d # ds) =
     \<lparr>sd_doc = d,
      sd_score = docScore lowerQuestion keywords (lower (PageContent d)) - int i,
      sd_index = i\<rparr> # scoreDocs lower lowerQuestion keywords (Suc i) ds"

text \<open>
  The sort is the exchange sort of the source: for each position \<open>i\<close>, every later
  position \<open>j\<close> is compared with it and the two entries are swapped when the later one has
  the larger score. \<open>sweep cur rest\<close> is one pass of the inner loop: \<open>cur\<close> is the entry
  at position \<open>i\<close>, \<open>rest\<close> the entries after it; it returns the entry left at \<open>i\<close> and
  the entries after it. The outer loop makes \<open>len - 1\<close> passes.
\<close>

fun sweep :: "scoredDoc \<Rightarrow> scoredDoc list \<Rightarrow> scoredDoc \<times> scoredDoc list" where
  "sweep cur [] = (cur, [])"
| "sweep cur (x # xs) =
     (if sd_score x > sd_score cur
      then (case sweep x xs of (m, rest) \<Rightarrow> (m, cur # rest))
      else (case sweep cur xs of (m, rest) \<Rightarrow> (m, x # rest)))"

fun sortPasses :: "nat \<Rightarrow> scoredDoc list \<Rightarrow> scoredDoc list" where
  "sortPasses 0 xs = xs"
| "sortPasses (Suc n) [] = []"
| "sortPasses (Suc n) (x # xs) = (case sweep x xs of (m, rest) \<Rightarrow> m # sortPasses n rest)"

definition sortByScore :: "scoredDoc list \<Rightarrow> scoredDoc list" where
  "sortByScore xs = sortPasses (length xs - 1) xs"

definition originalScore :: "scoredDoc \<Rightarrow> int" where
  \<comment> \<open>\<open>originalScore := scoredDocs[i].score + scoredDocs[i].index\<close>\<close>
  "originalScore sd = sd_score sd + int (sd_index sd)"

fun selectTop :: "nat \<Rightarrow> scoredDoc list \<Rightarrow> Document list" where
  \<comment> \<open>The selection loop; \<open>room\<close> is \<open>topK - len(result)\<close>.\<close>
  "selectTop room [] = []"
| "selectTop room (sd # rest) =
     (if room = 0 then []
      else if originalScore sd > 0 then sd_doc sd # selectTop (room - 1) rest
      else selectTop room rest)"

definition scoredCandidates ::
  "(string \<Rightarrow> string) \<Rightarrow> string \<Rightarrow> Document list \<Rightarrow> scoredDoc list" where
  \<comment> \<open>The slice \<open>scoredDocs\<close> as the scoring loop leaves it, before the sort.\<close>
  "scoredCandidates lower question allResults =
     (let lowerQuestion = lower question;
          keywords = rerankKeywords lowerQuestion
      in scoreDocs lower lowerQuestion keywords 0 allResults)"

datatype go_panic = MakesliceCapOutOfRange

definition reRankResults ::
  "(string \<Rightarrow> string) \<Rightarrow> string \<Rightarrow> Document list \<Rightarrow> int \<Rightarrow> go_panic + Document list" where
  \<comment> \<open>\<open>make([]schema.Document, 0, topK)\<close> panics when \<open>topK\<close> is negative; nothing before it
      has an effect other than printing.\<close>
  "reRankResults lower question allResults topK =
     (if int (length allResults) \<le> topK then Inr allResults
      else
        let scoredDocs = sortByScore (scoredCandidates lower question allResults) in
        if topK < 0 then Inl MakesliceCapOutOfRange
        else
          let result = selectTop (nat topK) scoredDocs in
          if result \<noteq> [] then Inr result
          else Inr (take (nat topK) allResults))"

fun scanCore :: "nat list \<Rightarrow> string \<Rightarrow> string list \<Rightarrow> string list" where
  \<comment> \<open>The loop over the runes of the question, on \<open>(currentKeyword, coreKeywords)\<close>, with
      the test after the loop. \<open>len(currentKeyword)\<close> counts bytes.\<close>
  "scanCore [] currentKeyword coreKeywords =
     (if length currentKeyword \<ge> 2 then coreKeywords @ [currentKeyword] else coreKeywords)"
| "scanCore (r # rs) currentKeyword coreKeywords =
     (let char = encodeRune r in
      if char \<notin> set filterStopWords \<and> char \<noteq> '' ''
      then scanCore rs (currentKeyword @ char) coreKeywords
      else scanCore rs []
             (if length currentKeyword \<ge> 2 then coreKeywords @ [currentKeyword]
              else coreKeywords))"

definition coreKeywordsOf :: "string \<Rightarrow> string list" where
  "coreKeywordsOf lowerQuestion = scanCore (runes lowerQuestion) [] []"

definition hasRelevantKeyword :: "string list \<Rightarrow> string \<Rightarrow> bool" where
  "hasRelevantKeyword coreKeywords lowerContent =
     (let contentNoSpace = removeByte CHR '' '' lowerContent in
      list_ex (\<lambda>keyword. strings_Contains lowerContent keyword
                 \<or> strings_Contains contentNoSpace (removeByte CHR '' '' keyword))
              coreKeywords)"

definition filterRelevantResults ::
  "(string \<Rightarrow> string) \<Rightarrow> string \<Rightarrow> Document list \<Rightarrow> Document list" where
  "filterRelevantResults lower question results =
     (if results = [] then results
      else
        let coreKeywords = coreKeywordsOf (lower question) in
        if coreKeywords = [] then results
        else
          let filtered = filter (\<lambda>d. hasRelevantKeyword coreKeywords (lower (PageContent d))) results
          in
          if filtered = [] \<and> results \<noteq> []
          then take (if length results < 3 then length results else 3) results
          else filtered)"

section \<open>api/server.go: document groups and the response limits\<close>

text \<open>
  A chunk is the \<open>map[string]interface{}\<close> that \<open>handleQuery\<close> builds for one cited
  passage; its six keys are the fields of the record. \<open>DocGroup\<close> is the struct of that
  name.
\<close>

record Chunk =
  c_content :: string
  c_pageContent :: string
  c_index :: nat
  c_source :: string
  c_title :: string
  c_preview :: string

record DocGroup =
  DocTitle :: string
  DocSource :: string
  SourceType :: string
  FileType :: string
  HasPublicForm :: bool
  FileID :: string
  Chunks :: "Chunk list"

definition maxDocGroups :: nat where
  "maxDocGroups = 50"

definition maxChunksPerGroup :: nat where
  "maxChunksPerGroup = 20"

definition maxChunkContentLength :: nat where
  "maxChunkContentLength = 2000"

definition truncateText :: "string \<Rightarrow> string" where
  \<comment> \<open>\<open>if len(content) > maxChunkContentLength { content[:maxChunkContentLength] + "..." }\<close>\<close>
  "truncateText t =
     (if length t > maxChunkContentLength then take maxChunkContentLength t @ ''...'' else t)"

definition limitChunk :: "Chunk \<Rightarrow> Chunk" where
  "limitChunk c =
     c\<lparr>c_content := truncateText (c_content c), c_pageContent := truncateText (c_pageContent c)\<rparr>"

definition limitGroup :: "DocGroup \<Rightarrow> DocGroup" where
  "limitGroup g =
     g\<lparr>Chunks := map limitChunk
           (if length (Chunks g) > maxChunksPerGroup then take maxChunksPerGroup (Chunks g)
            else Chunks g)\<rparr>"

definition limitDocGroups :: "DocGroup list \<Rightarrow> DocGroup list" where
  "limitDocGroups docGroups =
     map limitGroup
       (if length docGroups > maxDocGroups then take maxDocGroups docGroups else docGroups)"

section \<open>api/server.go: the classification cache, the check queue and the workers\<close>

definition filepath_Ext :: "string \<Rightarrow> string" where
  \<comment> \<open>\<open>filepath.Ext\<close>: the suffix from the last dot of the last path element, or nothing.\<close>
  "filepath_Ext path =
     (let elem = rev (takeWhile (\<lambda>c. c \<noteq> CHR ''/'') (rev path)) in
      if CHR ''.'' \<in> set elem then CHR ''.'' # rev (takeWhile (\<lambda>c. c \<noteq> CHR ''.'') (rev elem))
      else [])"

definition eligibleType :: "(string \<Rightarrow> string) \<Rightarrow> DocGroup \<Rightarrow> bool" where
  \<comment> \<open>The negation of the first test of \<open>checkPublicForm\<close> and \<open>checkPublicFormAsync\<close>.\<close>
  "eligibleType lower grp =
     (let fileTypeLower = lower (FileType grp) in
      \<not> (fileTypeLower \<noteq> ''pdf'' \<and> fileTypeLower \<noteq> ''doc'' \<and> fileTypeLower \<noteq> ''docx''
         \<and> fileTypeLower \<noteq> ''txt''))"

text \<open>
  The file system is the environment of a worker. \<open>ioLog\<close> records every operation on it,
  with the \<open>FileID\<close> of the group under check, so that a run shows which files were
  touched.
\<close>

datatype io_op = Stat string | ReadLastBytes string | LoadDocument string

datatype load_result = LoadTimeout | LoadFailed | Loaded "Document list"

record FileSystem =
  files :: "string \<rightharpoonup> string"  \<comment> \<open>\<open>s.files\<close>: the \<open>Filename\<close> stored for a file ID\<close>
  joinPath :: "string \<Rightarrow> string"  \<comment> \<open>\<open>filepath.Join(s.filesDir, name)\<close>\<close>
  statOk :: "string \<Rightarrow> bool"  \<comment> \<open>\<open>os.Stat(path)\<close> returns no error\<close>
  fileBytes :: "string \<rightharpoonup> string"  \<comment> \<open>the bytes of a file that opens and reads\<close>
  loadFile :: "string \<Rightarrow> load_result"  \<comment> \<open>\<open>fileLoader.Load(path)\<close> under its 1.5 s deadline\<close>

definition readFileLastBytes :: "FileSystem \<Rightarrow> string \<Rightarrow> nat \<Rightarrow> string option" where
  \<comment> \<open>\<open>None\<close> is an error of \<open>Open\<close>, \<open>Stat\<close>, \<open>Seek\<close> or \<open>Read\<close>; a read that succeeds
      fills the buffer.\<close>
  "readFileLastBytes fs filePath maxBytes =
     (case fileBytes fs filePath of
        None \<Rightarrow> None
      | Some bytes \<Rightarrow>
          if length bytes = 0 then Some []
          else
            let bytesToRead = (if length bytes < maxBytes then length bytes else maxBytes)
            in Some (drop (length bytes - bytesToRead) bytes))"

definition loadDocumentLastPart :: "FileSystem \<Rightarrow> string \<Rightarrow> string \<Rightarrow> int \<Rightarrow> string option" where
  "loadDocumentLastPart fs filePath fileType maxChars0 =
     (let maxChars = (if maxChars0 \<le> 0 then 100 else nat maxChars0) in
      case loadFile fs filePath of
        LoadTimeout \<Rightarrow> None
      | LoadFailed \<Rightarrow> None
      | Loaded docs \<Rightarrow>
          if length docs = 0 then None
          else
            let content = PageContent (last docs) in
            Some (if length content > maxChars then drop (length content - maxChars) content
                  else content))"

definition maxCheckLength :: nat where
  "maxCheckLength = 100"

definition checkPublicFormAsync ::
  "(string \<Rightarrow> string) \<Rightarrow> FileSystem \<Rightarrow> DocGroup \<Rightarrow> DocGroup \<times> io_op list" where
  \<comment> \<open>The group as the worker leaves it, and the operations on the file system, in order.\<close>
  "checkPublicFormAsync lower fs grp =
     (let fileTypeLower = lower (FileType grp) in
      if \<not> eligibleType lower grp then (grp\<lparr>HasPublicForm := False\<rparr>, [])
      else if FileID grp = [] then (grp\<lparr>HasPublicForm := False\<rparr>, [])
      else
        case files fs (FileID grp) of
          None \<Rightarrow> (grp\<lparr>HasPublicForm := False\<rparr>, [])
        | Some filename \<Rightarrow>
            let newFormatPath = joinPath fs (FileID grp @ ''_'' @ filename);
                oldFormatPath = joinPath fs (FileID grp @ filepath_Ext filename)
            in
            if \<not> statOk fs newFormatPath \<and> \<not> statOk fs oldFormatPath
            then (grp\<lparr>HasPublicForm := False\<rparr>, [Stat newFormatPath, Stat oldFormatPath])
            else
              let filePath = (if statOk fs newFormatPath then newFormatPath else oldFormatPath);
                  stats = (if statOk fs newFormatPath then [Stat newFormatPath]
                           else [Stat newFormatPath, Stat oldFormatPath])
              in
              if fileTypeLower = ''txt''
              then
                let contentToCheck =
                      (case readFileLastBytes fs filePath maxCheckLength of
                         Some fileContent \<Rightarrow> fileContent
                       | None \<Rightarrow> [])
                in (grp\<lparr>HasPublicForm := checkPublicFormInContent contentToCheck\<rparr>,
                    stats @ [ReadLastBytes filePath])
              else
                let contentToCheck =
                      (case loadDocumentLastPart fs filePath fileTypeLower (int maxCheckLength) of
                         Some lastContent \<Rightarrow>
                           if lastContent \<noteq> [] then
                             (if length lastContent > maxCheckLength
                              then drop (length lastContent - maxCheckLength) lastContent
                              else lastContent)
                           else []
                       | None \<Rightarrow> [])
                in (grp\<lparr>HasPublicForm := checkPublicFormInContent contentToCheck\<rparr>,
                    stats @ [LoadDocument filePath]))"

text \<open>
  The state that the requests and the three workers share. \<open>pending\<close> holds the requests
  that have read the cache, found no verdict, and have not yet reached the send: the read
  and the send of \<open>checkPublicForm\<close> are two operations with no lock between them, and
  the workers and the other requests run in between.
\<close>

record ServerState =
  publicFormCache :: "string \<rightharpoonup> bool"  \<comment> \<open>the \<open>sync.Map\<close> from file ID to verdict\<close>
  pending :: "DocGroup list"  \<comment> \<open>requests between the \<open>Load\<close> that missed and their send\<close>
  checkQueue :: "DocGroup list"  \<comment> \<open>the buffer of the channel, oldest first\<close>
  inFlight :: "DocGroup list"  \<comment> \<open>tasks a worker has received and not yet finished\<close>
  ioLog :: "(string \<times> io_op) list"  \<comment> \<open>operations on the file system so far, by file ID\<close>

definition queueCapacity :: nat where
  \<comment> \<open>\<open>make(chan *DocGroup, 100)\<close>\<close>
  "queueCapacity = 100"

definition checkWorkers :: nat where
  "checkWorkers = 3"

definition cacheMiss :: "ServerState \<Rightarrow> DocGroup \<Rightarrow> ServerState" where
  \<comment> \<open>\<open>s.publicFormCache.Load(group.FileID)\<close> has found nothing: the request goes on to the
      send.\<close>
  "cacheMiss s grp = s\<lparr>pending := pending s @ [grp]\<rparr>"

definition trySend :: "ServerState \<Rightarrow> DocGroup \<Rightarrow> ServerState" where
  \<comment> \<open>The \<open>select\<close>: \<open>case s.checkQueue <- group\<close> when the buffer has room, \<open>default\<close> when it
      is full.\<close>
  "trySend s grp =
     (if length (checkQueue s) < queueCapacity
      then s\<lparr>pending := remove1 grp (pending s), checkQueue := checkQueue s @ [grp]\<rparr>
      else s\<lparr>pending := remove1 grp (pending s)\<rparr>)"

text \<open>
  \<open>checkPublicForm\<close> is the closure of that name in \<open>handleQuery\<close>. It returns the group,
  the state of the server, and whether it slept. \<open>between\<close> is what the rest of the server
  (workers, other requests) does to the state between the read of the cache and the send,
  \<open>during\<close> is what it does while the request sleeps for 500 ms; the cache is read again
  in the state that \<open>during\<close> leaves.
\<close>

record CheckResult =
  cr_group :: DocGroup
  cr_state :: ServerState
  cr_waited :: bool

definition checkPublicForm ::
  "(string \<Rightarrow> string) \<Rightarrow> (ServerState \<Rightarrow> ServerState) \<Rightarrow> (ServerState \<Rightarrow> ServerState)
     \<Rightarrow> ServerState \<Rightarrow> DocGroup \<Rightarrow> CheckResult" where
  "checkPublicForm lower between during s grp =
     (if \<not> eligibleType lower grp
      then \<lparr>cr_group = grp, cr_state = s, cr_waited = False\<rparr>
      else if FileID grp \<noteq> [] \<and> publicFormCache s (FileID grp) \<noteq> None
      then \<lparr>cr_group = grp\<lparr>HasPublicForm := the (publicFormCache s (FileID grp))\<rparr>,
            cr_state = s, cr_waited = False\<rparr>
      else if FileID grp \<noteq> []
      then
        let s0 = between (cacheMiss s grp) in
        if length (checkQueue s0) < queueCapacity
        then
          let s1 = trySend s0 grp;
              s2 = during s1
          in (case publicFormCache s2 (FileID grp) of
                Some hasPublicForm \<Rightarrow>
                  \<lparr>cr_group = grp\<lparr>HasPublicForm := hasPublicForm\<rparr>, cr_state = s2,
                   cr_waited = True\<rparr>
              | None \<Rightarrow>
                  \<lparr>cr_group = grp\<lparr>HasPublicForm := False\<rparr>, cr_state = s2, cr_waited = True\<rparr>)
        else \<lparr>cr_group = grp\<lparr>HasPublicForm := False\<rparr>, cr_state = trySend s0 grp,
              cr_waited = False\<rparr>
      else \<lparr>cr_group = grp\<lparr>HasPublicForm := False\<rparr>, cr_state = s, cr_waited = False\<rparr>)"

text \<open>
  A worker takes a task from the queue (\<open>receive\<close>), runs \<open>checkPublicFormAsync\<close> on it and
  stores \<open>group.HasPublicForm\<close> under the file ID of the task (\<open>finish\<close>). The task is the
  pointer that the request has sent, and the request assigns \<open>group.HasPublicForm\<close> itself
  when its sleep is over; when that assignment falls between the check of the worker and
  its \<open>Store\<close>, the worker stores the value of the request (\<open>finishOverwritten\<close>, for any
  value). A panic inside the check is recovered in the loop of the worker, which then
  stores nothing and takes the next task (\<open>recovered\<close>, after any operations on the file).
  A request that finds no verdict for its file becomes pending (\<open>miss\<close>) and later tries
  the send (\<open>send\<close>). The file system may differ from one step to the next.
\<close>

definition workerStore :: "DocGroup \<Rightarrow> bool \<Rightarrow> io_op list \<Rightarrow> ServerState \<Rightarrow> ServerState" where
  \<comment> \<open>\<open>if group.FileID != "" { s.publicFormCache.Store(group.FileID, group.HasPublicForm) }\<close>
      at the end of a task that has done the operations \<open>ops\<close>.\<close>
  "workerStore grp hasPublicForm ops s =
     s\<lparr>publicFormCache :=
          (if FileID grp \<noteq> []
           then (publicFormCache s)(FileID grp \<mapsto> hasPublicForm)
           else publicFormCache s),
       inFlight := remove1 grp (inFlight s),
       ioLog := ioLog s @ map (Pair (FileID grp)) ops\<rparr>"

definition workerFinish ::
  "(string \<Rightarrow> string) \<Rightarrow> FileSystem \<Rightarrow> DocGroup \<Rightarrow> ServerState \<Rightarrow> ServerState" where
  \<comment> \<open>The body of the worker's loop for the task \<open>grp\<close>: the check, then the store of the
      flag that the check has set.\<close>
  "workerFinish lower fs grp s =
     (case checkPublicFormAsync lower fs grp of
        (checked, ops) \<Rightarrow> workerStore grp (HasPublicForm checked) ops s)"

inductive serverStep :: "(string \<Rightarrow> string) \<Rightarrow> ServerState \<Rightarrow> ServerState \<Rightarrow> bool"
  for lower :: "string \<Rightarrow> string" where
  miss:
    "eligibleType lower grp \<Longrightarrow> FileID grp \<noteq> [] \<Longrightarrow> publicFormCache s (FileID grp) = None \<Longrightarrow>
       serverStep lower s (cacheMiss s grp)"
| send:
    "grp \<in> set (pending s) \<Longrightarrow> serverStep lower s (trySend s grp)"
| receive:
    "checkQueue s = grp # rest \<Longrightarrow> length (inFlight s) < checkWorkers \<Longrightarrow>
       serverStep lower s (s\<lparr>checkQueue := rest, inFlight := inFlight s @ [grp]\<rparr>)"
| finish:
    "grp \<in> set (inFlight s) \<Longrightarrow> serverStep lower s (workerFinish lower fs grp s)"
| finishOverwritten:
    "grp \<in> set (inFlight s) \<Longrightarrow>
       serverStep lower s
         (workerStore grp hasPublicForm (snd (checkPublicFormAsync lower fs grp)) s)"
| recovered:
    "grp \<in> set (inFlight s) \<Longrightarrow>
       serverStep lower s
         (s\<lparr>inFlight := remove1 grp (inFlight s),
            ioLog := ioLog s @ map (Pair (FileID grp)) ops\<rparr>)"

definition noTaskFor :: "string \<Rightarrow> ServerState \<Rightarrow> bool" where
  \<comment> \<open>Nothing is under way for the file \<open>f\<close>: no request is about to send a task for it, no
      task for it waits in the queue, and none is with a worker.\<close>
  "noTaskFor f s = list_all (\<lambda>t. FileID t \<noteq> f) (pending s @ checkQueue s @ inFlight s)"

definition eventsFor :: "string \<Rightarrow> ServerState \<Rightarrow> io_op list" where
  "eventsFor f s = map snd (filter (\<lambda>e. fst e = f) (ioLog s))"

section \<open>rag/rag.go: the prompt and the query\<close>

text \<open>
  \<open>buildPrompt\<close> writes a fixed instruction text, one section for each passage, the
  question and a fixed closing text. The two fixed texts are string literals of the
  source; they are the fields of \<open>PromptText\<close>, and nothing below depends on what they
  say.
\<close>

record PromptText =
  preamble :: string
  closing :: string

definition maxDocLength :: nat where
  "maxDocLength = 800"

definition promptSection :: "nat \<Rightarrow> Document \<Rightarrow> string" where
  \<comment> \<open>The body of \<open>for i, doc := range results\<close>: a line with the number \<open>i+1\<close> and its
      marker, the text cut to 800 bytes, and the source when the metadata has one. The
      first literal is a newline, \<open>[\<close>, U+6587 U+6863 U+7247 U+6BB5 and a space; the
      other is U+6765 U+6E90, a colon and a space.\<close>
  "promptSection i doc =
     (let docNumber = getCircleNumber (int i + 1);
          content = (if length (PageContent doc) > maxDocLength
                     then take maxDocLength (PageContent doc) @ ''...''
                     else PageContent doc)
      in [CHR 0x0A, CHR 0x5B, CHR 0xE6, CHR 0x96, CHR 0x87, CHR 0xE6, CHR 0xA1, CHR 0xA3,
          CHR 0xE7, CHR 0x89, CHR 0x87, CHR 0xE6, CHR 0xAE, CHR 0xB5, CHR 0x20]
         @ fmtInt (int i + 1) @ ''] '' @ docNumber @ [CHR 0x0A]
         @ content @ [CHR 0x0A]
         @ (case MetaSource doc of
              Some source \<Rightarrow>
                [CHR 0xE6, CHR 0x9D, CHR 0xA5, CHR 0xE6, CHR 0xBA, CHR 0x90, CHR 0x3A, CHR 0x20]
                @ source @ [CHR 0x0A]
            | None \<Rightarrow> []))"

fun promptSections :: "nat \<Rightarrow> Document list \<Rightarrow> string" where
  "promptSections i [] = []"
| "promptSections i (doc # rest) = promptSection i doc @ promptSections (Suc i) rest"

definition buildPrompt :: "PromptText \<Rightarrow> string \<Rightarrow> Document list \<Rightarrow> string" where
  \<comment> \<open>The literal before the question is a newline, U+95EE U+9898, a colon and a space.\<close>
  "buildPrompt text question results =
     preamble text @ promptSections 0 results
     @ [CHR 0x0A, CHR 0xE9, CHR 0x97, CHR 0xAE, CHR 0xE9, CHR 0xA2, CHR 0x98, CHR 0x3A, CHR 0x20]
     @ question @ closing text"

definition apology :: string where
  \<comment> \<open>The answer when no passage is left: U+62B1 U+6B49 U+FF0C U+6211 U+5728 U+77E5 U+8BC6
      U+5E93 U+4E2D U+6CA1 U+6709 U+627E U+5230 U+76F8 U+5173 U+4FE1 U+606F U+3002.\<close>
  "apology =
     [CHR 0xE6, CHR 0x8A, CHR 0xB1, CHR 0xE6, CHR 0xAD, CHR 0x89, CHR 0xEF, CHR 0xBC, CHR 0x8C,
      CHR 0xE6, CHR 0x88, CHR 0x91, CHR 0xE5, CHR 0x9C, CHR 0xA8, CHR 0xE7, CHR 0x9F, CHR 0xA5,
      CHR 0xE8, CHR 0xAF, CHR 0x86, CHR 0xE5, CHR 0xBA, CHR 0x93, CHR 0xE4, CHR 0xB8, CHR 0xAD,
      CHR 0xE6, CHR 0xB2, CHR 0xA1, CHR 0xE6, CHR 0x9C, CHR 0x89, CHR 0xE6, CHR 0x89, CHR 0xBE,
      CHR 0xE5, CHR 0x88, CHR 0xB0, CHR 0xE7, CHR 0x9B, CHR 0xB8, CHR 0xE5, CHR 0x85, CHR 0xB3,
      CHR 0xE4, CHR 0xBF, CHR 0xA1, CHR 0xE6, CHR 0x81, CHR 0xAF, CHR 0xE3, CHR 0x80, CHR 0x82]"

definition wrap64 :: "int \<Rightarrow> int" where
  \<comment> \<open>The value of an arithmetic result in Go's 64-bit \<open>int\<close>.\<close>
  "wrap64 x = (x + 2 ^ 63) mod 2 ^ 64 - 2 ^ 63"

definition searchTopK :: "int \<Rightarrow> int" where
  "searchTopK topK =
     (let k = wrap64 (topK * 3);
          k = (if k < 15 then 15 else k)
      in if k > 50 then 50 else k)"

datatype gen_error = DeadlineExceeded | ProviderError

datatype query_error = FailedToSearch | GenerationTimeout | FailedToGenerate | Panicked go_panic

record QueryResult =
  Answer :: string
  Results :: "Document list"

text \<open>
  The store and the language model are the two collaborators of the query: \<open>search\<close> is
  \<open>r.store.Search\<close> for the question and the number of candidates (\<open>None\<close> when it returns
  an error), \<open>generate\<close> is \<open>r.llm.Generate\<close> under its deadline of 120 s. A panic of
  \<open>reRankResults\<close> is not recovered in this package and ends the call.
\<close>

definition QueryWithResults ::
  "(string \<Rightarrow> string) \<Rightarrow> PromptText \<Rightarrow> (string \<Rightarrow> int \<Rightarrow> Document list option)
     \<Rightarrow> (string \<Rightarrow> gen_error + string) \<Rightarrow> string \<Rightarrow> int \<Rightarrow> query_error + QueryResult" where
  "QueryWithResults lower text search generate question topK =
     (case search question (searchTopK topK) of
        None \<Rightarrow> Inl FailedToSearch
      | Some allResults \<Rightarrow>
          (case reRankResults lower question allResults topK of
             Inl p \<Rightarrow> Inl (Panicked p)
           | Inr reranked \<Rightarrow>
               let results = filterRelevantResults lower question reranked in
               if length results = 0 then Inr \<lparr>Answer = apology, Results = []\<rparr>
               else
                 (case generate (buildPrompt text question results) of
                    Inl DeadlineExceeded \<Rightarrow> Inl GenerationTimeout
                  | Inl ProviderError \<Rightarrow> Inl FailedToGenerate
                  | Inr answer \<Rightarrow> Inr \<lparr>Answer = answer, Results = results\<rparr>)))"


section \<open>api/server.go: attribution and grouping in \<open>handleQuery\<close>\<close>

definition filepath_Base :: "string \<Rightarrow> string" where
  \<comment> \<open>\<open>filepath.Base\<close> with \<open>/\<close> as the separator: trailing separators are dropped, the last
      element is returned; the empty path gives \<open>.\<close>, a path of separators gives \<open>/\<close>.\<close>
  "filepath_Base path =
     (if path = [] then ''.''
      else
        let stripped = rev (dropWhile (\<lambda>c. c = CHR ''/'') (rev path));
            elem = rev (takeWhile (\<lambda>c. c \<noteq> CHR ''/'') (rev stripped))
        in if elem = [] then ''/'' else elem)"

definition strings_IndexByte :: "string \<Rightarrow> char \<Rightarrow> int" where
  \<comment> \<open>\<open>strings.Index(s, sep)\<close> for a one-byte \<open>sep\<close>: the first position, or \<open>-1\<close>.\<close>
  "strings_IndexByte s b =
     (if b \<in> set s then int (length (takeWhile (\<lambda>c. c \<noteq> b) s)) else - 1)"

fun strings_SplitByte :: "string \<Rightarrow> char \<Rightarrow> string list" where
  \<comment> \<open>\<open>strings.Split(s, sep)\<close> for a one-byte \<open>sep\<close>.\<close>
  "strings_SplitByte [] b = [[]]"
| "strings_SplitByte (c # cs) b =
     (if c = b then [] # strings_SplitByte cs b
      else (case strings_SplitByte cs b of
              [] \<Rightarrow> [[c]]
            | part # parts \<Rightarrow> (c # part) # parts))"

definition extractOriginalFilename :: "string \<Rightarrow> string" where
  "extractOriginalFilename filename =
     (if filename = [] then []
      else
        let underscoreIndex = strings_IndexByte filename CHR ''_'' in
        if underscoreIndex > 0 then
          let prefix = take (nat underscoreIndex) filename in
          if length prefix = 36 \<and> strings_Contains prefix ''-'' then
            let parts = strings_SplitByte prefix CHR ''-'' in
            if length parts = 5 then
              let originalName = drop (nat underscoreIndex + 1) filename in
              if originalName \<noteq> [] then originalName else filename
            else filename
          else filename
        else filename)"

record DocMeta =
  docTitle :: string
  docSource :: string
  sourceType :: string
  fileType :: string
  fileID :: string

definition metaFromSource :: "(string \<Rightarrow> string) \<Rightarrow> Document \<Rightarrow> DocMeta" where
  \<comment> \<open>The five variables after \<open>if source, ok := d.Metadata["source"].(string); ok\<close>.\<close>
  "metaFromSource lower d =
     (case MetaSource d of
        None \<Rightarrow> \<lparr>docTitle = [], docSource = [], sourceType = [], fileType = [], fileID = []\<rparr>
      | Some source \<Rightarrow>
          if strings_HasPrefix source ''http://'' \<or> strings_HasPrefix source ''https://''
          then \<lparr>docTitle = source, docSource = source, sourceType = ''url'', fileType = [],
                fileID = []\<rparr>
          else
            let baseName = filepath_Base source;
                title = extractOriginalFilename (filepath_Base source);
                idx = strings_IndexByte baseName CHR ''_'';
                ext = lower (filepath_Ext title)
            in \<lparr>docTitle = title, docSource = source, sourceType = ''file'',
                fileType = (if ext \<noteq> [] then drop 1 ext else []),
                fileID = (if idx > 0 then take (nat idx) baseName else [])\<rparr>)"

definition metaFromFileName :: "(string \<Rightarrow> string) \<Rightarrow> Document \<Rightarrow> DocMeta \<Rightarrow> DocMeta" where
  \<comment> \<open>The block \<open>if fileName, ok := d.Metadata["file_name"].(string); ok && fileName != ""\<close>.\<close>
  "metaFromFileName lower d m =
     (case MetaFileName d of
        None \<Rightarrow> m
      | Some fileName \<Rightarrow>
          if fileName = [] then m
          else
            let originalFileName = extractOriginalFilename fileName;
                idx = strings_IndexByte fileName CHR ''_'';
                ext = lower (filepath_Ext originalFileName)
            in m\<lparr>docTitle := (if originalFileName \<noteq> [] then originalFileName else docTitle m),
                 fileID := (if idx > 0 then take (nat idx) fileName else fileID m),
                 fileType := (if ext \<noteq> [] then drop 1 ext else fileType m)\<rparr>)"

definition unnamedDocument :: string where
  \<comment> \<open>U+672A U+547D U+540D U+6587 U+6863\<close>
  "unnamedDocument =
     [CHR 0xE6, CHR 0x9C, CHR 0xAA, CHR 0xE5, CHR 0x91, CHR 0xBD, CHR 0xE5, CHR 0x90, CHR 0x8D,
      CHR 0xE6, CHR 0x96, CHR 0x87, CHR 0xE6, CHR 0xA1, CHR 0xA3]"

record docProcessResult =
  pr_index :: nat
  pr_result :: Chunk
  pr_groupKey :: string
  pr_group :: DocGroup

definition processDoc :: "(string \<Rightarrow> string) \<Rightarrow> nat \<Rightarrow> Document \<Rightarrow> docProcessResult" where
  \<comment> \<open>The goroutine started for the passage at position \<open>idx\<close> of \<open>queryResult.Results\<close>:
      what it sends on \<open>resultChan\<close>.\<close>
  "processDoc lower idx d =
     (let originalIndex = idx + 1;
          m = metaFromFileName lower d (metaFromSource lower d);
          title = (if docTitle m = [] then unnamedDocument else docTitle m);
          preview = (if length (PageContent d) > 200 then take 200 (PageContent d) @ ''...''
                     else PageContent d);
          result = \<lparr>c_content = PageContent d, c_pageContent = PageContent d,
                    c_index = originalIndex, c_source = docSource m, c_title = title,
                    c_preview = preview\<rparr>;
          groupKey = (if docSource m = [] then title else docSource m)
      in \<lparr>pr_index = originalIndex, pr_result = result, pr_groupKey = groupKey,
          pr_group = \<lparr>DocTitle = title, DocSource = docSource m, SourceType = sourceType m,
                      FileType = fileType m, HasPublicForm = False, FileID = fileID m,
                      Chunks = [result]\<rparr>\<rparr>)"

fun producedFrom :: "(string \<Rightarrow> string) \<Rightarrow> (nat \<rightharpoonup> bool) \<Rightarrow> nat \<Rightarrow> Document list
    \<Rightarrow> docProcessResult list" where
  \<comment> \<open>\<open>for i, doc := range queryResult.Results\<close>, from position \<open>i\<close> on: one message for each
      passage whose number is marked as used.\<close>
  "producedFrom lower usedIndices i [] = []"
| "producedFrom lower usedIndices i (doc # rest) =
     (if \<not> usedAt usedIndices (i + 1) then producedFrom lower usedIndices (Suc i) rest
      else processDoc lower i doc # producedFrom lower usedIndices (Suc i) rest)"

text \<open>
  The collector receives the messages in the order in which the goroutines send them,
  which the source does not fix. \<open>docGroupsMap\<close> is kept as a list of keys and groups, a
  key at most once.
\<close>

fun mergeGroup :: "docProcessResult \<Rightarrow> (string \<times> DocGroup) list \<Rightarrow> (string \<times> DocGroup) list" where
  "mergeGroup res [] = [(pr_groupKey res, pr_group res)]"
| "mergeGroup res ((key, existingGroup) # rest) =
     (if key = pr_groupKey res
      then (key,
            existingGroup
              \<lparr>FileType := (if FileType (pr_group res) \<noteq> [] \<and> FileType existingGroup = []
                            then FileType (pr_group res) else FileType existingGroup),
               FileID := (if FileID (pr_group res) \<noteq> [] \<and> FileID existingGroup = []
                          then FileID (pr_group res) else FileID existingGroup),
               Chunks := Chunks existingGroup @ [pr_result res]\<rparr>) # rest
      else (key, existingGroup) # mergeGroup res rest)"

fun collectResults ::
  "docProcessResult list \<Rightarrow> (string \<times> DocGroup) list \<times> Chunk list
     \<Rightarrow> (string \<times> DocGroup) list \<times> Chunk list" where
  \<comment> \<open>\<open>for res := range resultChan\<close>, on \<open>(docGroupsMap, searchResults)\<close>.\<close>
  "collectResults [] acc = acc"
| "collectResults (res # rest) (docGroupsMap, searchResults) =
     collectResults rest (mergeGroup res docGroupsMap, searchResults @ [pr_result res])"

definition truncatedIndices :: "DocGroup list \<Rightarrow> nat list" where
  \<comment> \<open>The numbers of the chunks that the limiter rewrites: the first 20 chunks of the first
      50 groups.\<close>
  "truncatedIndices docGroups =
     concat (map (\<lambda>g. map c_index (take maxChunksPerGroup (Chunks g)))
                 (take maxDocGroups docGroups))"

record Response =
  r_answer :: string
  r_results :: "Chunk list"
  r_docGroups :: "DocGroup list"

text \<open>
  \<open>handleQuery\<close> from the point where \<open>QueryWithResults\<close> has returned. Two things are
  left open by the source and are arguments here: \<open>arrivals\<close>, the messages in the order
  in which the collector receives them, and \<open>docGroups\<close>, the groups in the order in which
  \<open>range docGroupsMap\<close> visits them, each with the flag that the classification has left
  on it. \<open>validSchedule\<close> says that they are an order of the messages produced and of the
  groups collected. The chunks are maps shared between the flat list and the groups, so
  a chunk that the limiter cuts is cut in the flat list as well; a chunk is known by its
  number.
\<close>

definition validSchedule ::
  "(string \<Rightarrow> string) \<Rightarrow> QueryResult \<Rightarrow> docProcessResult list \<Rightarrow> DocGroup list \<Rightarrow> bool" where
  "validSchedule lower queryResult arrivals docGroups =
     (mset arrivals
        = mset (producedFrom lower (extractUsedAnnotations (Answer queryResult)) 0
                  (Results queryResult))
      \<and> mset (map (\<lambda>g. g\<lparr>HasPublicForm := False\<rparr>) docGroups)
        = mset (map (\<lambda>kg. (snd kg)\<lparr>HasPublicForm := False\<rparr>)
                  (fst (collectResults arrivals ([], [])))))"

definition handleQuery ::
  "QueryResult \<Rightarrow> docProcessResult list \<Rightarrow> DocGroup list \<Rightarrow> Response" where
  "handleQuery queryResult arrivals docGroups =
     (let searchResults = sort_key c_index (snd (collectResults arrivals ([], [])));
          limitedDocGroups = limitDocGroups docGroups;
          cut = truncatedIndices docGroups
      in \<lparr>r_answer = Answer queryResult,
          r_results = map (\<lambda>c. if c_index c \<in> set cut then limitChunk c else c) searchResults,
          r_docGroups = limitedDocGroups\<rparr>)"

text \<open>
  \<open>citedFrom lower queryResult c\<close>: the chunk \<open>c\<close> is the one that \<open>processDoc\<close> builds for
  the passage at position \<open>c_index c\<close> (counted from 1) of \<open>queryResult.Results\<close>, and that
  position is marked as used by the answer.
\<close>

definition citedFrom :: "(string \<Rightarrow> string) \<Rightarrow> QueryResult \<Rightarrow> Chunk \<Rightarrow> bool" where
  "citedFrom lower qr c =
     (1 \<le> c_index c \<and> c_index c \<le> length (Results qr)
      \<and> usedAt (extractUsedAnnotations (Answer qr)) (c_index c)
      \<and> c = pr_result (processDoc lower (c_index c - 1) (Results qr ! (c_index c - 1))))"

section \<open>Well-formed text and the keyword predicates of the re-ranker\<close>

definition validRune :: "nat \<Rightarrow> bool" where
  \<comment> \<open>A Unicode scalar value: at most U+10FFFF and not a surrogate.\<close>
  "validRune r = (r \<le> 0x10FFFF \<and> \<not> (0xD800 \<le> r \<and> r \<le> 0xDFFF))"

definition wellFormedUTF8 :: "string \<Rightarrow> bool" where
  \<comment> \<open>Decoding and encoding again gives the same bytes. \<open>strings.ToLower\<close> returns such a
      string: it copies ASCII text, and otherwise writes the encoding of every rune it
      decodes.\<close>
  "wellFormedUTF8 s = (stringOfRunes (runes s) = s)"

definition containsEveryKeyword :: "(string \<Rightarrow> string) \<Rightarrow> string \<Rightarrow> Document \<Rightarrow> bool" where
  \<comment> \<open>The lower-cased text of the passage contains each keyword of the question.\<close>
  "containsEveryKeyword lower question d =
     list_all (\<lambda>keyword. strings_Contains (lower (PageContent d)) keyword)
       (rerankKeywords (lower question))"

definition matchesNoKeyword :: "(string \<Rightarrow> string) \<Rightarrow> string \<Rightarrow> Document \<Rightarrow> bool" where
  \<comment> \<open>No keyword of the question passes the test of the scoring loop on the passage.\<close>
  "matchesNoKeyword lower question d =
     list_all (\<lambda>keyword. \<not> keywordMatches (lower (PageContent d)) keyword)
       (rerankKeywords (lower question))"

section \<open>Concrete inputs\<close>

definition answerOneThree :: string where
  \<comment> \<open>An answer citing passages 1 and 3: \<open>A\<close>, marker 1, \<open>B\<close>, marker 3.\<close>
  "answerOneThree = ''A'' @ [CHR 0xE2, CHR 0x91, CHR 0xA0] @ ''B'' @ [CHR 0xE2, CHR 0x91, CHR 0xA2]"

definition question1 :: string where
  \<comment> \<open>The question \<open>ab\<close>, U+7684 (a stop word), \<open>c\<close>.\<close>
  "question1 = ''ab'' @ [CHR 0xE7, CHR 0x9A, CHR 0x84] @ ''c''"

definition docA :: Document where
  "docA = \<lparr>PageContent = ''xab'', MetaSource = None, MetaFileName = None\<rparr>"

definition docB :: Document where
  "docB = \<lparr>PageContent = ''zz'', MetaSource = None, MetaFileName = None\<rparr>"

definition longChunk :: Chunk where
  \<comment> \<open>A chunk whose text is 2001 letters \<open>a\<close>.\<close>
  "longChunk =
     \<lparr>c_content = replicate 2001 CHR ''a'', c_pageContent = replicate 2001 CHR ''a'',
      c_index = 1, c_source = ''doc.txt'', c_title = ''doc.txt'',
      c_preview = replicate 200 CHR ''a'' @ ''...''\<rparr>"

definition longGroup :: DocGroup where
  "longGroup =
     \<lparr>DocTitle = ''doc.txt'', DocSource = ''doc.txt'', SourceType = ''file'', FileType = ''txt'',
      HasPublicForm = False, FileID = [], Chunks = [longChunk]\<rparr>"

definition restrictedTail :: string where
  \<comment> \<open>The text \<open>marker, full-width colon, U+4E0D U+4E88 U+516C U+5F00\<close> at the end of a
      restricted document.\<close>
  "restrictedTail = publicFormMarker @ fullColon @ notPublic"

definition pdfGroup :: DocGroup where
  "pdfGroup =
     \<lparr>DocTitle = ''a.pdf'', DocSource = ''uploads/f1_a.pdf'', SourceType = ''file'',
      FileType = ''pdf'', HasPublicForm = False, FileID = ''f1'', Chunks = []\<rparr>"

definition otherGroup :: DocGroup where
  "otherGroup =
     \<lparr>DocTitle = ''b.txt'', DocSource = ''uploads/f2_b.txt'', SourceType = ''file'',
      FileType = ''txt'', HasPublicForm = False, FileID = ''f2'', Chunks = []\<rparr>"

definition fsGood :: FileSystem where
  \<comment> \<open>The file \<open>f1\<close> is stored, and loads in time: one page that ends with the marker.\<close>
  "fsGood =
     \<lparr>files = [''f1'' \<mapsto> ''a.pdf''], joinPath = (\<lambda>name. ''uploads/'' @ name),
      statOk = (\<lambda>path. path = ''uploads/f1_a.pdf''), fileBytes = Map.empty,
      loadFile = (\<lambda>path. Loaded [\<lparr>PageContent = restrictedTail, MetaSource = None,
                                     MetaFileName = None\<rparr>])\<rparr>"

definition fsSlow :: FileSystem where
  \<comment> \<open>The same file, when loading it runs into the deadline of 1.5 s.\<close>
  "fsSlow = fsGood\<lparr>loadFile := (\<lambda>path. LoadTimeout)\<rparr>"

definition initialState :: ServerState where
  \<comment> \<open>\<open>NewServer\<close>: an empty cache and an empty queue.\<close>
  "initialState =
     \<lparr>publicFormCache = Map.empty, pending = [], checkQueue = [], inFlight = [], ioLog = []\<rparr>"

definition lateSender :: ServerState where
  \<comment> \<open>Two requests have found no verdict for the file \<open>f1\<close>. One has sent its task, which a
      worker has received; the other has not yet reached its send.\<close>
  "lateSender = initialState\<lparr>pending := [pdfGroup], inFlight := [pdfGroup]\<rparr>"

definition fullState :: ServerState where
  "fullState = initialState\<lparr>checkQueue := replicate 100 otherGroup\<rparr>"

definition oneInFlight :: ServerState where
  "oneInFlight = initialState\<lparr>inFlight := [pdfGroup]\<rparr>"

definition afterFirst :: ServerState where
  \<comment> \<open>The worker has finished: the file loaded in time.\<close>
  "afterFirst = workerFinish lowerASCII fsGood pdfGroup lateSender"

definition afterSend :: ServerState where
  \<comment> \<open>The second request has sent its task and a worker has received it.\<close>
  "afterSend = (trySend afterFirst pdfGroup)\<lparr>checkQueue := [], inFlight := [pdfGroup]\<rparr>"

definition afterSecond :: ServerState where
  \<comment> \<open>The worker has finished the second task: loading ran into its deadline.\<close>
  "afterSecond = workerFinish lowerASCII fsSlow pdfGroup afterSend"

definition docC :: Document where
  "docC = \<lparr>PageContent = ''xab'', MetaSource = Some ''uploads/f1_a.pdf'', MetaFileName = None\<rparr>"

definition samplePrompt :: PromptText where
  "samplePrompt = \<lparr>preamble = ''Context:'', closing = ''Answer:''\<rparr>"

definition manyCandidates :: "Document list" where
  \<comment> \<open>Seventy passages without the keyword, then one with it.\<close>
  "manyCandidates = replicate 70 docB @ [docA]"

section \<open>Properties\<close>

lemma strings_Contains_removeByte:
  assumes "strings_Contains s m" and "b \<notin> set m"
  shows "strings_Contains (removeByte b s) m"
proof -
  from assms(1) obtain ps ss where "s = ps @ m @ ss"
    by (auto simp: strings_Contains_def sublist_def)
  moreover have "filter (\<lambda>c. c \<noteq> b) m = m"
    using assms(2) by (induction m) auto
  ultimately have "removeByte b s = removeByte b ps @ m @ removeByte b ss"
    by (simp add: removeByte_def)
  then show ?thesis
    by (auto simp: strings_Contains_def sublist_def)
qed

lemma marker_in_normalized:
  assumes "strings_Contains content publicFormMarker"
  shows "strings_Contains (normalizeContent content) publicFormMarker"
  unfolding normalizeContent_def
  by (intro strings_Contains_removeByte assms) (simp_all add: publicFormMarker_def)

lemma qualified_has_marker:
  assumes "q \<in> set qualifiedMarkers" and "strings_Contains s q"
  shows "strings_Contains s publicFormMarker"
proof -
  from assms(1) obtain t where "q = publicFormMarker @ t"
    by (auto simp: qualifiedMarkers_def)
  then have "sublist publicFormMarker q"
    by simp
  moreover from assms(2) have "sublist q s"
    by (simp add: strings_Contains_def)
  ultimately show ?thesis
    unfolding strings_Contains_def by (rule sublist_order.order_trans)
qed

lemma normalizeContent_filter:
  "normalizeContent content
     = filter (\<lambda>c. c \<noteq> CHR 0x20 \<and> c \<noteq> CHR 0x0A \<and> c \<noteq> CHR 0x0D \<and> c \<noteq> CHR 0x09) content"
  by (induction content) (auto simp: normalizeContent_def removeByte_def)

lemma contains_marker_between:
  "strings_Contains (before @ publicFormMarker @ after) publicFormMarker"
  by (simp add: strings_Contains_def sublist_appendI)

lemma checkPublicFormInContent_normalized:
  "checkPublicFormInContent content
     = strings_Contains (normalizeContent content) publicFormMarker"
proof (cases "content = []")
  case True
  then show ?thesis
    by (simp add: checkPublicFormInContent_def normalizeContent_def removeByte_def
        strings_Contains_def publicFormMarker_def)
next
  case False
  have q: "list_ex (strings_Contains s) qualifiedMarkers \<Longrightarrow> strings_Contains s publicFormMarker"
    for s
    by (auto simp: list_ex_iff intro: qualified_has_marker)
  show ?thesis
    using False marker_in_normalized [of content] q [of content] q [of "normalizeContent content"]
    by (auto simp: checkPublicFormInContent_def Let_def)
qed

text \<open>
  C10. \<open>checkPublicFormInContent\<close> answers true exactly when the content, with every space
  (0x20), newline (0x0A), carriage return (0x0D) and tab (0x09) removed, contains the twelve
  bytes of the four-character marker U+516C U+5F00 U+5F62 U+5F0F. Whatever stands before
  and after the marker, and so whatever qualifier follows it, the answer is true; and the
  empty string gives false.
\<close>

theorem C10_checkPublicFormInContent_iff:
  "(checkPublicFormInContent content
      \<longleftrightarrow> sublist [CHR 0xE5, CHR 0x85, CHR 0xAC, CHR 0xE5, CHR 0xBC, CHR 0x80,
                   CHR 0xE5, CHR 0xBD, CHR 0xA2, CHR 0xE5, CHR 0xBC, CHR 0x8F]
            (filter (\<lambda>c. c \<noteq> CHR 0x20 \<and> c \<noteq> CHR 0x0A \<and> c \<noteq> CHR 0x0D \<and> c \<noteq> CHR 0x09)
               content))
   \<and> checkPublicFormInContent
        (before @ [CHR 0xE5, CHR 0x85, CHR 0xAC, CHR 0xE5, CHR 0xBC, CHR 0x80,
                   CHR 0xE5, CHR 0xBD, CHR 0xA2, CHR 0xE5, CHR 0xBC, CHR 0x8F] @ qualifier)
   \<and> \<not> checkPublicFormInContent []"
proof -
  have 1: "checkPublicFormInContent content
      \<longleftrightarrow> sublist [CHR 0xE5, CHR 0x85, CHR 0xAC, CHR 0xE5, CHR 0xBC, CHR 0x80,
                   CHR 0xE5, CHR 0xBD, CHR 0xA2, CHR 0xE5, CHR 0xBC, CHR 0x8F]
            (filter (\<lambda>c. c \<noteq> CHR 0x20 \<and> c \<noteq> CHR 0x0A \<and> c \<noteq> CHR 0x0D \<and> c \<noteq> CHR 0x09)
               content)"
    by (simp add: checkPublicFormInContent_normalized normalizeContent_filter
        strings_Contains_def publicFormMarker_def)
  have 2: "checkPublicFormInContent
        (before @ [CHR 0xE5, CHR 0x85, CHR 0xAC, CHR 0xE5, CHR 0xBC, CHR 0x80,
                   CHR 0xE5, CHR 0xBD, CHR 0xA2, CHR 0xE5, CHR 0xBC, CHR 0x8F] @ qualifier)"
    using contains_marker_between [of before qualifier]
    by (simp add: checkPublicFormInContent_def publicFormMarker_def)
  have 3: "\<not> checkPublicFormInContent []"
    by (simp add: checkPublicFormInContent_def)
  from 1 2 3 show ?thesis
    by blast
qed

text \<open>
  Three contents: the marker with a space, a newline, a carriage return and a tab between
  its characters; the marker followed by a half-width colon and a qualifier that is none
  of the three of the source; and the first three characters of the marker alone.
\<close>

lemma checkPublicFormInContent_examples:
  "checkPublicFormInContent
     ([CHR 0xE5, CHR 0x85, CHR 0xAC, CHR 0x20, CHR 0xE5, CHR 0xBC, CHR 0x80, CHR 0x0A,
       CHR 0x0D, CHR 0xE5, CHR 0xBD, CHR 0xA2, CHR 0x09, CHR 0xE5, CHR 0xBC, CHR 0x8F])"
  "checkPublicFormInContent (publicFormMarker @ '':xyz'')"
  "\<not> checkPublicFormInContent
     [CHR 0xE5, CHR 0x85, CHR 0xAC, CHR 0xE5, CHR 0xBC, CHR 0x80, CHR 0xE5, CHR 0xBD, CHR 0xA2]"
  by (simp_all add: checkPublicFormInContent_normalized normalizeContent_filter
      strings_Contains_def publicFormMarker_def sublist_Cons_right prefix_Cons)

lemma markUsed_lookup:
  "markUsed answer i cs used j =
     (if \<exists>n < length cs. j = i + n + 1 \<and> strings_Contains answer (cs ! n) then Some True else used j)"
proof (induction cs arbitrary: i used)
  case Nil
  then show ?case by simp
next
  case (Cons c cs)
  have ex: "(\<exists>n < length (c # cs). j = i + n + 1 \<and> strings_Contains answer ((c # cs) ! n))
      \<longleftrightarrow> (j = i + 1 \<and> strings_Contains answer c)
        \<or> (\<exists>n < length cs. j = Suc i + n + 1 \<and> strings_Contains answer (cs ! n))"
    by (auto simp: less_Suc_eq_0_disj)
  show ?case
    unfolding markUsed.simps Cons.IH ex by auto
qed

lemma usedAt_extract:
  "usedAt (extractUsedAnnotations answer) i
     \<longleftrightarrow> 1 \<le> i \<and> i \<le> 10 \<and> strings_Contains answer (circleNumbers ! (i - 1))"
proof -
  have len: "length circleNumbers = 10"
    by (simp add: circleNumbers_def)
  have "(\<exists>n<10. i = n + 1 \<and> strings_Contains answer (circleNumbers ! n))
      \<longleftrightarrow> 1 \<le> i \<and> i \<le> 10 \<and> strings_Contains answer (circleNumbers ! (i - 1))"
    by (cases i) auto
  then show ?thesis
    by (simp add: usedAt_def extractUsedAnnotations_def markUsed_lookup len)
qed

lemma marker_append:
  assumes "a \<noteq> b" and "c \<noteq> a"
  shows "sublist [a, b, c] (s @ [a, b, d]) \<longleftrightarrow> sublist [a, b, c] s \<or> c = d"
proof
  assume "sublist [a, b, c] (s @ [a, b, d])"
  then consider "sublist [a, b, c] s" | "sublist [a, b, c] [a, b, d]"
    | xs1 xs2 where "[a, b, c] = xs1 @ xs2" "suffix xs1 s" "prefix xs2 [a, b, d]"
    unfolding sublist_append by blast
  then show "sublist [a, b, c] s \<or> c = d"
  proof cases
    case 1
    then show ?thesis by simp
  next
    case 2
    then show ?thesis using assms by (auto simp: sublist_Cons_right)
  next
    case 3
    then show ?thesis
      using assms by (auto simp: Cons_eq_append_conv prefix_Cons dest: suffix_imp_sublist)
  qed
next
  assume "sublist [a, b, c] s \<or> c = d"
  then show "sublist [a, b, c] (s @ [a, b, d])"
    by (auto simp: sublist_append)
qed

lemma circle_shape:
  assumes "i < 10"
  shows "\<exists>c. circleNumbers ! i = [CHR 0xE2, CHR 0x91, c] \<and> c \<noteq> CHR 0xE2"
proof -
  from assms have "i \<in> {0,1,2,3,4,5,6,7,8,9}" by auto
  then show ?thesis
    by (auto simp: circleNumbers_def)
qed

lemma circle_inj:
  assumes "i < 10" and "j < 10"
  shows "circleNumbers ! i = circleNumbers ! j \<longleftrightarrow> i = j"
proof -
  have "distinct circleNumbers"
    by (simp add: circleNumbers_def)
  moreover have "length circleNumbers = 10"
    by (simp add: circleNumbers_def)
  ultimately show ?thesis
    using assms by (simp add: nth_eq_iff_index_eq)
qed

lemma contains_append_marker:
  assumes "i < 10" and "k < 10"
  shows "strings_Contains (s @ circleNumbers ! k) (circleNumbers ! i)
     \<longleftrightarrow> strings_Contains s (circleNumbers ! i) \<or> i = k"
proof -
  from circle_shape [OF assms(1)] obtain c where c: "circleNumbers ! i = [CHR 0xE2, CHR 0x91, c]" "c \<noteq> CHR 0xE2"
    by blast
  from circle_shape [OF assms(2)] obtain d where d: "circleNumbers ! k = [CHR 0xE2, CHR 0x91, d]"
    by blast
  have "c = d \<longleftrightarrow> i = k"
    using circle_inj [OF assms] c d by auto
  then show ?thesis
    using marker_append [of "CHR 0xE2" "CHR 0x91" c s d] c d
    by (simp add: strings_Contains_def)
qed


lemma getCircleNumber_nth:
  assumes "1 \<le> i" and "i \<le> 10"
  shows "getCircleNumber (int i) = circleNumbers ! (i - 1)"
proof -
  have "length circleNumbers = 10"
    by (simp add: circleNumbers_def)
  moreover have "nat (int i - 1) = i - 1"
    by simp
  ultimately show ?thesis
    using assms by (simp add: getCircleNumber_def)
qed

text \<open>
  C7. Citation extraction marks index \<open>i\<close> exactly when \<open>i\<close> is between 1 and 10 and the
  answer contains the marker of passage \<open>i\<close>; no other key is ever written, so a passage
  at position 11 or later is never marked; and appending the marker of \<open>k\<close> to an answer
  adds exactly \<open>k\<close> to the marked indices, whatever else the answer holds.
\<close>

theorem C7_extractUsedAnnotations:
  "(usedAt (extractUsedAnnotations answer) i
      \<longleftrightarrow> 1 \<le> i \<and> i \<le> 10 \<and> strings_Contains answer (getCircleNumber (int i)))
   \<and> (extractUsedAnnotations answer i \<noteq> None \<longrightarrow> 1 \<le> i \<and> i \<le> 10)
   \<and> (11 \<le> i \<longrightarrow> \<not> usedAt (extractUsedAnnotations answer) i)
   \<and> (1 \<le> k \<and> k \<le> 10 \<longrightarrow>
        {j. usedAt (extractUsedAnnotations (answer @ getCircleNumber (int k))) j}
          = insert k {j. usedAt (extractUsedAnnotations answer) j})"
proof -
  have iff: "usedAt (extractUsedAnnotations answer) i
      \<longleftrightarrow> 1 \<le> i \<and> i \<le> 10 \<and> strings_Contains answer (getCircleNumber (int i))"
    using usedAt_extract [of answer i] getCircleNumber_nth [of i] by auto
  have dom: "1 \<le> i \<and> i \<le> 10" if "extractUsedAnnotations answer i \<noteq> None"
  proof -
    have "length circleNumbers = 10"
      by (simp add: circleNumbers_def)
    with that have "\<exists>n<10. i = n + 1"
      by (auto simp: extractUsedAnnotations_def markUsed_lookup split: if_splits)
    then show ?thesis by auto
  qed
  have late: "\<not> usedAt (extractUsedAnnotations answer) i" if "11 \<le> i"
    using that by (simp add: usedAt_extract)
  have app: "{j. usedAt (extractUsedAnnotations (answer @ getCircleNumber (int k))) j}
          = insert k {j. usedAt (extractUsedAnnotations answer) j}" if k: "1 \<le> k \<and> k \<le> 10"
  proof -
    have "usedAt (extractUsedAnnotations (answer @ circleNumbers ! (k - 1))) j
        \<longleftrightarrow> j = k \<or> usedAt (extractUsedAnnotations answer) j" for j
    proof (cases "1 \<le> j \<and> j \<le> 10")
      case True
      then have "j - 1 < 10" "k - 1 < 10" "j - 1 = k - 1 \<longleftrightarrow> j = k"
        using k by auto
      then show ?thesis
        using True contains_append_marker [of "j - 1" "k - 1" answer]
        by (auto simp: usedAt_extract)
    next
      case False
      then show ?thesis
        using k by (auto simp: usedAt_extract)
    qed
    then show ?thesis
      using k by (auto simp: getCircleNumber_nth)
  qed
  from iff dom late app show ?thesis
    by blast
qed

theorem C7_witness:
  "usedAt (extractUsedAnnotations answerOneThree) 1
   \<and> \<not> usedAt (extractUsedAnnotations answerOneThree) 2
   \<and> usedAt (extractUsedAnnotations answerOneThree) 3
   \<and> \<not> usedAt (extractUsedAnnotations answerOneThree) 11
   \<and> extractUsedAnnotations answerOneThree 3 \<noteq> None
   \<and> {j. usedAt (extractUsedAnnotations (answerOneThree @ getCircleNumber 2)) j}
       = insert 2 {j. usedAt (extractUsedAnnotations answerOneThree) j}"
proof -
  have c: "strings_Contains answerOneThree (getCircleNumber 1)"
          "\<not> strings_Contains answerOneThree (getCircleNumber 2)"
          "strings_Contains answerOneThree (getCircleNumber 3)"
    by (simp_all add: answerOneThree_def getCircleNumber_def circleNumbers_def strings_Contains_def
        sublist_Cons_right prefix_Cons)
  have n: "extractUsedAnnotations answerOneThree 3 \<noteq> None"
    by (simp add: extractUsedAnnotations_def circleNumbers_def answerOneThree_def strings_Contains_def
        sublist_Cons_right prefix_Cons)
  show ?thesis
    using C7_extractUsedAnnotations [of answerOneThree 1 2] C7_extractUsedAnnotations [of answerOneThree 2 2]
      C7_extractUsedAnnotations [of answerOneThree 3 2] C7_extractUsedAnnotations [of answerOneThree 11 2] c n
    by simp
qed

lemma sweep_mset: "sweep cur xs = (m, rest) \<Longrightarrow> mset (m # rest) = mset (cur # xs)"
  by (induction cur xs arbitrary: m rest rule: sweep.induct) (auto split: if_splits prod.splits)

lemma sweep_length: "sweep cur xs = (m, rest) \<Longrightarrow> length rest = length xs"
  by (induction cur xs arbitrary: m rest rule: sweep.induct) (auto split: if_splits prod.splits)

lemma sweep_max_cur: "sweep cur xs = (m, rest) \<Longrightarrow> sd_score cur \<le> sd_score m"
  by (induction cur xs arbitrary: m rest rule: sweep.induct) (fastforce split: if_splits prod.splits)+

lemma sweep_max_rest:
  "sweep cur xs = (m, rest) \<Longrightarrow> y \<in> set rest \<Longrightarrow> sd_score y \<le> sd_score m"
proof (induction cur xs arbitrary: m rest rule: sweep.induct)
  case (1 cur)
  then show ?case by simp
next
  case (2 cur x xs)
  show ?case
  proof (cases "sd_score x > sd_score cur")
    case True
    then obtain r where r: "sweep x xs = (m, r)" "rest = cur # r"
      using "2.prems"(1) by (auto split: prod.splits)
    from sweep_max_cur [OF r(1)] True have "sd_score cur \<le> sd_score m" by simp
    then show ?thesis
      using "2.IH"(1) [OF True r(1)] "2.prems"(2) r(2) by auto
  next
    case False
    then obtain r where r: "sweep cur xs = (m, r)" "rest = x # r"
      using "2.prems"(1) by (auto split: prod.splits)
    from sweep_max_cur [OF r(1)] False have "sd_score x \<le> sd_score m" by simp
    then show ?thesis
      using "2.IH"(2) [OF False r(1)] "2.prems"(2) r(2) by auto
  qed
qed

lemma sortPasses_mset: "mset (sortPasses n xs) = mset xs"
proof (induction n xs rule: sortPasses.induct)
  case (3 n x xs)
  obtain m rest where s: "sweep x xs = (m, rest)" by force
  with 3 sweep_mset [OF s] show ?case by simp
qed simp_all

lemma sortPasses_sorted:
  "length xs \<le> Suc n \<Longrightarrow> sorted_wrt (\<lambda>a b. sd_score a \<ge> sd_score b) (sortPasses n xs)"
proof (induction n xs rule: sortPasses.induct)
  case (1 xs)
  then show ?case by (cases xs) auto
next
  case (2 n)
  then show ?case by simp
next
  case (3 n x xs)
  obtain m rest where s: "sweep x xs = (m, rest)" by force
  have "set (sortPasses n rest) = set rest"
    using sortPasses_mset [of n rest] by (metis set_mset_mset)
  then have "\<forall>y \<in> set (sortPasses n rest). sd_score y \<le> sd_score m"
    using sweep_max_rest [OF s] by simp
  moreover have "sorted_wrt (\<lambda>a b. sd_score a \<ge> sd_score b) (sortPasses n rest)"
    using "3.IH" [OF s [symmetric]] "3.prems" sweep_length [OF s] by simp
  ultimately show ?case
    using s by simp
qed

lemma sortByScore_mset: "mset (sortByScore xs) = mset xs"
  by (simp add: sortByScore_def sortPasses_mset)

lemma sortByScore_sorted: "sorted_wrt (\<lambda>a b. sd_score a \<ge> sd_score b) (sortByScore xs)"
  unfolding sortByScore_def by (rule sortPasses_sorted) simp

lemma selectTop_eq:
  "selectTop room xs = map sd_doc (take room (filter (\<lambda>sd. originalScore sd > 0) xs))"
  by (induction room xs rule: selectTop.induct) (auto simp: take_Cons')

lemma scoreDocs_nth:
  "n < length ds \<Longrightarrow>
     scoreDocs lower lq kws i ds ! n =
       \<lparr>sd_doc = ds ! n, sd_score = docScore lq kws (lower (PageContent (ds ! n))) - int (i + n),
        sd_index = i + n\<rparr>"
  by (induction ds arbitrary: i n) (auto simp: nth_Cons')

lemma scoreDocs_length: "length (scoreDocs lower lq kws i ds) = length ds"
  by (induction ds arbitrary: i) auto


lemma scoredCandidates_nth:
  "n < length ds \<Longrightarrow>
     sd_doc (scoredCandidates lower q ds ! n) = ds ! n
     \<and> sd_index (scoredCandidates lower q ds ! n) = n
     \<and> originalScore (scoredCandidates lower q ds ! n)
         = docScore (lower q) (rerankKeywords (lower q)) (lower (PageContent (ds ! n)))"
  by (simp add: scoredCandidates_def Let_def scoreDocs_nth originalScore_def)

lemma positive_selected:
  assumes "\<exists>sd \<in> set xs. originalScore sd > 0" and "0 < room"
  shows "selectTop room (sortByScore xs) \<noteq> []"
proof -
  from assms(1) have "\<exists>sd \<in> set (sortByScore xs). originalScore sd > 0"
    using sortByScore_mset [of xs] by (metis set_mset_mset)
  then have "filter (\<lambda>sd. originalScore sd > 0) (sortByScore xs) \<noteq> []"
    by (simp add: filter_empty_conv)
  with assms(2) show ?thesis
    by (simp add: selectTop_eq)
qed

lemma none_selected:
  assumes "\<not> (\<exists>sd \<in> set xs. originalScore sd > 0)"
  shows "selectTop room (sortByScore xs) = []"
proof -
  from assms have "\<not> (\<exists>sd \<in> set (sortByScore xs). originalScore sd > 0)"
    using sortByScore_mset [of xs] by (metis set_mset_mset)
  then have "filter (\<lambda>sd. originalScore sd > 0) (sortByScore xs) = []"
    by (simp add: filter_empty_conv)
  then show ?thesis
    by (simp add: selectTop_eq)
qed

text \<open>
  C5, for an output size of at least 1. With more candidates than \<open>topK\<close>, the passages
  returned are those of \<open>sel\<close>: the first \<open>topK\<close> entries of the sorted list whose
  original score (the score with the index added back) is positive. They are in
  descending order of score, and when no candidate has a positive original score the
  first \<open>topK\<close> candidates are returned in their retrieval order. A candidate list that
  is not empty never gives an empty result.
\<close>

theorem C5_reRankResults:
  assumes "1 \<le> topK"
  shows "(allResults \<noteq> [] \<longrightarrow>
            (\<exists>result. reRankResults lower question allResults topK = Inr result \<and> result \<noteq> []))
       \<and> (topK < int (length allResults) \<longrightarrow>
            (\<exists>sel. reRankResults lower question allResults topK
                     = Inr (if sel = [] then take (nat topK) allResults else map sd_doc sel)
                \<and> sel = take (nat topK) (filter (\<lambda>sd. originalScore sd > 0)
                           (sortByScore (scoredCandidates lower question allResults)))
                \<and> set sel \<subseteq> set (scoredCandidates lower question allResults)
                \<and> (\<forall>sd \<in> set sel. originalScore sd > 0)
                \<and> sorted_wrt (\<lambda>a b. sd_score a \<ge> sd_score b) sel
                \<and> length sel \<le> nat topK
                \<and> (sel = [] \<longleftrightarrow>
                     \<not> (\<exists>sd \<in> set (scoredCandidates lower question allResults). originalScore sd > 0))))"
proof -
  define scored where "scored = scoredCandidates lower question allResults"
  define sel where "sel = take (nat topK) (filter (\<lambda>sd. originalScore sd > 0) (sortByScore scored))"
  have room: "0 < nat topK"
    using assms by simp
  have sel_empty: "sel = [] \<longleftrightarrow> \<not> (\<exists>sd \<in> set scored. originalScore sd > 0)"
    using positive_selected [of scored "nat topK"] none_selected [of scored "nat topK"] room
    by (auto simp: sel_def selectTop_eq)
  have sub: "set sel \<subseteq> set scored"
  proof -
    have "set sel \<subseteq> set (sortByScore scored)"
      unfolding sel_def by (meson filter_is_subset order_trans set_take_subset)
    also have "\<dots> = set scored"
      using sortByScore_mset [of scored] by (metis set_mset_mset)
    finally show ?thesis .
  qed
  have pos: "\<forall>sd \<in> set sel. originalScore sd > 0"
    unfolding sel_def by (auto dest: in_set_takeD)
  have srt: "sorted_wrt (\<lambda>a b. sd_score a \<ge> sd_score b) sel"
    unfolding sel_def
    by (intro sorted_wrt_take sorted_wrt_filter sortByScore_sorted)
  have len: "length sel \<le> nat topK"
    by (simp add: sel_def)
  have big: "reRankResults lower question allResults topK
       = Inr (if sel = [] then take (nat topK) allResults else map sd_doc sel)"
    if "topK < int (length allResults)"
    using that assms by (simp add: reRankResults_def Let_def selectTop_eq sel_def scored_def)
  have nonempty: "\<exists>result. reRankResults lower question allResults topK = Inr result \<and> result \<noteq> []"
    if ne: "allResults \<noteq> []"
  proof (cases "topK < int (length allResults)")
    case True
    show ?thesis
      using big [OF True] ne room by (cases "sel = []") auto
  next
    case False
    then show ?thesis
      using ne by (simp add: reRankResults_def)
  qed
  show ?thesis
    using nonempty big sub pos srt len sel_empty
    unfolding sel_def scored_def by blast
qed

text \<open>
  C8. Filtering is idempotent: filtering the output of \<open>filterRelevantResults\<close> again,
  with the same question, returns it unchanged. The proof goes through each path: no
  passages, no core keyword, some passage kept, and none kept (the first three stay).
\<close>

theorem C8_filter_idempotent:
  "filterRelevantResults lower question (filterRelevantResults lower question results)
     = filterRelevantResults lower question results"
proof -
  define core where "core = coreKeywordsOf (lower question)"
  define P where "P = (\<lambda>d :: Document. hasRelevantKeyword core (lower (PageContent d)))"
  show ?thesis
  proof (cases "results = [] \<or> core = []")
    case True
    then show ?thesis
      by (auto simp: filterRelevantResults_def core_def)
  next
    case False
    show ?thesis
    proof (cases "filter P results = []")
      case True
      define kept where "kept = take (if length results < 3 then length results else 3) results"
      have first: "filterRelevantResults lower question results = kept"
        using False True by (simp add: filterRelevantResults_def core_def P_def Let_def kept_def)
      have "kept \<noteq> []"
        using False by (auto simp: kept_def)
      moreover have "filter P kept = []"
        using True unfolding kept_def filter_empty_conv by (auto dest: in_set_takeD)
      moreover have "take (if length kept < 3 then length kept else 3) kept = kept"
        by (auto simp: kept_def)
      ultimately have "filterRelevantResults lower question kept = kept"
        using False by (simp add: filterRelevantResults_def core_def [symmetric] P_def [symmetric] Let_def)
      with first show ?thesis by simp
    next
      case nonempty: False
      have first: "filterRelevantResults lower question results = filter P results"
        using False nonempty by (simp add: filterRelevantResults_def core_def P_def Let_def)
      have "filterRelevantResults lower question (filter P results) = filter P results"
        using False nonempty
        by (simp add: filterRelevantResults_def core_def [symmetric] P_def [symmetric] Let_def)
      with first show ?thesis by simp
    qed
  qed
qed

subsection \<open>Evaluating the re-ranker on concrete passages\<close>

lemmas utf8_eval = stringOfRunes_def encodeRune_def char_of_def bit_Suc_0_iff RuneError_def

lemmas str_eval =
  strings_Contains_def strings_HasPrefix_def removeByte_def sublist_Cons_right prefix_Cons

lemma runes_question1: "runes question1 = [97, 98, 0x7684, 99]"
  by (simp add: question1_def)

lemma extractKeywords_question1: "extractKeywords question1 = [''ab'']"
  unfolding extractKeywords_def runes_question1
  by (simp add: phrasesAt_def hasStopWord_def rerankStopWords_def utf8_eval upt_rec)

lemma rerankKeywords_question1: "rerankKeywords question1 = [''ab'']"
  by (simp add: rerankKeywords_def extractKeywords_question1)

lemma phraseWithoutStopWords_question1: "phraseWithoutStopWords question1 = ''abc''"
  unfolding phraseWithoutStopWords_def runes_question1
  by (simp add: rerankStopWords_def utf8_eval)

lemma docScore_docB: "docScore question1 [''ab''] ''zz'' = 0"
  unfolding docScore_def phraseWithoutStopWords_question1
  by (simp add: question1_def keywordMatches_def keywordBonus_def str_eval)

lemma docScore_docA: "docScore question1 [''ab''] ''xab'' = 70"
  unfolding docScore_def phraseWithoutStopWords_question1
  by (simp add: question1_def keywordMatches_def keywordBonus_def str_eval)

lemma lowerASCII_examples:
  "lowerASCII ''xab'' = ''xab''" "lowerASCII ''zz'' = ''zz''" "lowerASCII question1 = question1"
  by (simp_all add: lowerASCII_def question1_def)

lemma scoredCandidates_BA:
  "scoredCandidates lowerASCII question1 [docB, docA] =
     [\<lparr>sd_doc = docB, sd_score = 0, sd_index = 0\<rparr>, \<lparr>sd_doc = docA, sd_score = 69, sd_index = 1\<rparr>]"
  by (simp add: scoredCandidates_def lowerASCII_examples rerankKeywords_question1 docA_def docB_def
      docScore_docA docScore_docB)

lemma reRankResults_BA: "reRankResults lowerASCII question1 [docB, docA] 1 = Inr [docA]"
  by (simp add: reRankResults_def scoredCandidates_BA sortByScore_def originalScore_def)

theorem C5_witness:
  "(1::int) \<le> 1 \<and> (1::int) < int (length [docB, docA])
   \<and> reRankResults lowerASCII question1 [docB, docA] 1 = Inr [docA]
   \<and> (\<exists>result. reRankResults lowerASCII question1 [docB, docA] 1 = Inr result \<and> result \<noteq> [])"
proof -
  have h: "(1::int) \<le> 1"
    by simp
  have "[docB, docA] \<noteq> [] \<longrightarrow>
      (\<exists>result. reRankResults lowerASCII question1 [docB, docA] 1 = Inr result \<and> result \<noteq> [])"
    using C5_reRankResults [OF h, of "[docB, docA]" lowerASCII question1] by (rule conjunct1)
  then have "\<exists>result. reRankResults lowerASCII question1 [docB, docA] 1 = Inr result \<and> result \<noteq> []"
    by simp
  then show ?thesis
    using reRankResults_BA by simp
qed

text \<open>
  With \<open>topK = 0\<close> the stage returns no passage although it was given one: the claim as
  it is written, for every \<open>k\<close>, fails there.
\<close>

theorem C5_counterexample:
  "[docA] \<noteq> [] \<and> (0::int) < int (length [docA])
   \<and> reRankResults lowerASCII question1 [docA] 0 = Inr []"
  by (simp add: reRankResults_def selectTop_eq)

subsection \<open>The response limits\<close>

lemma truncateText_length: "length (truncateText t) \<le> maxChunkContentLength + 3"
  by (simp add: truncateText_def)

lemma truncateText_take: "take maxChunkContentLength (truncateText t) = take maxChunkContentLength t"
  by (simp add: truncateText_def)

lemma limitGroup_chunks:
  "length (Chunks (limitGroup g)) \<le> maxChunksPerGroup"
  "c \<in> set (Chunks (limitGroup g)) \<Longrightarrow> \<exists>c0 \<in> set (Chunks g). c = limitChunk c0"
  by (auto simp: limitGroup_def dest: in_set_takeD split: if_splits)

lemma runes_length: "length (runes s) \<le> length s"
proof (induction s rule: length_induct)
  case (1 s)
  show ?case
  proof (cases s)
    case Nil
    then show ?thesis by simp
  next
    case (Cons c t)
    obtain r w where d: "decodeRune (c # t) = (r, w)"
      by force
    have "length (drop (w - 1) t) < length s"
      using Cons by simp
    then have "length (runes (drop (w - 1) t)) \<le> length (drop (w - 1) t)"
      using 1 by blast
    then show ?thesis
      using Cons d by simp
  qed
qed

lemma runes_ascii:
  "\<forall>c \<in> set s. (of_char c :: nat) < 0x80 \<Longrightarrow> runes s = map of_char s"
  by (induction s) simp_all

lemma truncateText_runes: "length (runes (truncateText t)) \<le> maxChunkContentLength + 3"
  using runes_length [of "truncateText t"] truncateText_length [of t] by linarith

text \<open>
  C9, with the marker counted. The list handed to the JSON encoder holds at most 50
  groups and each group at most 20 chunks. Each text field of a chunk is, before
  serialization, the text of the cited passage as \<open>truncateText\<close> leaves it: unchanged
  when it is within the budget of 2000, and otherwise a prefix of it followed by the
  three-character marker \<open>...\<close>. So a field holds at most 2003 characters; \<open>runes\<close> counts
  them as \<open>utf8.RuneCountInString\<close> does, a byte outside a well-formed sequence as one
  character, which is also what the encoder writes for it.
\<close>

theorem C9_limitDocGroups:
  "length (limitDocGroups docGroups) \<le> 50
   \<and> (\<forall>g \<in> set (limitDocGroups docGroups).
         length (Chunks g) \<le> 20
         \<and> (\<forall>c \<in> set (Chunks g).
               length (runes (c_content c)) \<le> 2003 \<and> length (runes (c_pageContent c)) \<le> 2003
               \<and> (\<exists>g0 \<in> set docGroups. \<exists>c0 \<in> set (Chunks g0).
                     c_content c = truncateText (c_content c0)
                     \<and> c_pageContent c = truncateText (c_pageContent c0))))"
proof (intro conjI ballI)
  show "length (limitDocGroups docGroups) \<le> 50"
    by (simp add: limitDocGroups_def maxDocGroups_def)
next
  fix g
  assume "g \<in> set (limitDocGroups docGroups)"
  then obtain g0 where g0: "g0 \<in> set docGroups" "g = limitGroup g0"
    by (auto simp: limitDocGroups_def dest: in_set_takeD split: if_splits)
  show "length (Chunks g) \<le> 20"
    using limitGroup_chunks(1) [of g0] g0 by (simp add: maxChunksPerGroup_def)
  fix c
  assume "c \<in> set (Chunks g)"
  then obtain c0 where c0: "c0 \<in> set (Chunks g0)" "c = limitChunk c0"
    using limitGroup_chunks(2) g0 by blast
  show "length (runes (c_content c)) \<le> 2003" "length (runes (c_pageContent c)) \<le> 2003"
    using truncateText_runes [of "c_content c0"] truncateText_runes [of "c_pageContent c0"] c0
    by (simp_all add: limitChunk_def maxChunkContentLength_def)
  show "\<exists>g0 \<in> set docGroups. \<exists>c0 \<in> set (Chunks g0).
          c_content c = truncateText (c_content c0)
          \<and> c_pageContent c = truncateText (c_pageContent c0)"
    using g0 c0 by (auto simp: limitChunk_def)
qed

lemma limitDocGroups_longGroup:
  "limitDocGroups [longGroup] =
     [longGroup\<lparr>Chunks := [longChunk\<lparr>c_content := replicate 2000 CHR ''a'' @ ''...'',
                                        c_pageContent := replicate 2000 CHR ''a'' @ ''...''\<rparr>]\<rparr>]"
  by (simp add: limitDocGroups_def limitGroup_def limitChunk_def truncateText_def longGroup_def
      longChunk_def maxDocGroups_def maxChunksPerGroup_def maxChunkContentLength_def)

theorem C9_witness:
  "length (limitDocGroups [longGroup]) \<le> 50
   \<and> length (Chunks (hd (limitDocGroups [longGroup]))) \<le> 20
   \<and> length (runes (c_content (hd (Chunks (hd (limitDocGroups [longGroup])))))) \<le> 2003
   \<and> length (runes (c_pageContent (hd (Chunks (hd (limitDocGroups [longGroup])))))) \<le> 2003"
proof -
  have g: "hd (limitDocGroups [longGroup]) \<in> set (limitDocGroups [longGroup])"
    by (simp add: limitDocGroups_longGroup)
  have c: "hd (Chunks (hd (limitDocGroups [longGroup])))
      \<in> set (Chunks (hd (limitDocGroups [longGroup])))"
    by (simp add: limitDocGroups_longGroup)
  from C9_limitDocGroups [of "[longGroup]"] g c show ?thesis
    by blast
qed

text \<open>
  A text of 2001 letters \<open>a\<close>, 2001 characters, leaves the limiter with 2003 characters:
  more than it came with and more than the budget of 2000.
\<close>

theorem C9_counterexample:
  "length (runes (c_content longChunk)) = 2001
   \<and> length (runes (c_pageContent longChunk)) = 2001
   \<and> length (runes (c_content (hd (Chunks (hd (limitDocGroups [longGroup])))))) = 2003
   \<and> length (runes (c_pageContent (hd (Chunks (hd (limitDocGroups [longGroup])))))) = 2003"
proof -
  have a: "runes (replicate n CHR ''a'' @ t) = map of_char (replicate n CHR ''a'' @ t)"
    if "\<forall>c \<in> set t. (of_char c :: nat) < 0x80" for n t
    using that by (intro runes_ascii) auto
  have "length (runes (replicate 2001 CHR ''a'' @ [])) = 2001"
    by (subst a) simp_all
  moreover have "length (runes (replicate 2000 CHR ''a'' @ ''...'')) = 2003"
    by (subst a) simp_all
  ultimately show ?thesis
    by (simp add: limitDocGroups_longGroup) (simp add: longChunk_def)
qed

subsection \<open>The classification cache\<close>

text \<open>
  A call of \<open>checkPublicForm\<close> that finds no verdict for its file is the step \<open>miss\<close> of
  \<open>serverStep\<close>, then whatever the server does, then \<open>trySend\<close>, which is the step \<open>send\<close>
  when the request is still pending; a call for a file without ID, or of a type that is
  not checked, or with a cached verdict, leaves the state as it is.
\<close>

lemma checkPublicForm_miss:
  assumes "eligibleType lower g" and "FileID g \<noteq> []" and "publicFormCache s (FileID g) = None"
  shows "serverStep lower s (cacheMiss s g)"
    and "cr_state (checkPublicForm lower between during s g)
      = (if cr_waited (checkPublicForm lower between during s g)
         then during (trySend (between (cacheMiss s g)) g)
         else trySend (between (cacheMiss s g)) g)"
  using assms
  by (auto simp: checkPublicForm_def Let_def intro: serverStep.miss split: option.splits)

lemma checkPublicForm_no_miss:
  assumes "\<not> (eligibleType lower g \<and> FileID g \<noteq> [] \<and> publicFormCache s (FileID g) = None)"
  shows "cr_state (checkPublicForm lower between during s g) = s"
    and "\<not> cr_waited (checkPublicForm lower between during s g)"
  using assms by (auto simp: checkPublicForm_def)

lemma checkPublicForm_hit:
  assumes "eligibleType lower g" and "FileID g \<noteq> []" and "publicFormCache s (FileID g) = Some v"
  shows "checkPublicForm lower between during s g
     = \<lparr>cr_group = g\<lparr>HasPublicForm := v\<rparr>, cr_state = s, cr_waited = False\<rparr>"
  using assms by (simp add: checkPublicForm_def)

lemma noTaskFor_iff:
  "noTaskFor f s
     \<longleftrightarrow> (\<forall>t \<in> set (pending s) \<union> set (checkQueue s) \<union> set (inFlight s). FileID t \<noteq> f)"
  by (auto simp: noTaskFor_def list_all_iff)

lemma other_file_events:
  assumes "FileID grp \<noteq> f"
  shows "filter (\<lambda>e. fst e = f) (map (Pair (FileID grp)) ops) = []"
  using assms by (induction ops) auto

lemma workerStore_other:
  assumes "FileID grp \<noteq> f" and "publicFormCache s f = Some v" and "noTaskFor f s"
  shows "publicFormCache (workerStore grp b ops s) f = Some v
     \<and> noTaskFor f (workerStore grp b ops s)
     \<and> eventsFor f (workerStore grp b ops s) = eventsFor f s"
  using assms other_file_events [OF assms(1), of ops]
  by (auto simp: workerStore_def noTaskFor_iff eventsFor_def dest: notin_set_remove1)

lemma step_keeps_verdict:
  assumes "serverStep lower s s'" and "publicFormCache s f = Some v" and "noTaskFor f s"
  shows "publicFormCache s' f = Some v \<and> noTaskFor f s' \<and> eventsFor f s' = eventsFor f s"
  using assms
proof (induction rule: serverStep.induct)
  case (miss grp s)
  then have "FileID grp \<noteq> f"
    by auto
  with miss show ?case
    by (auto simp: cacheMiss_def noTaskFor_iff eventsFor_def)
next
  case (send grp s)
  have "set (remove1 grp (pending s)) \<subseteq> set (pending s)"
    by (rule set_remove1_subset)
  with send show ?case
    by (auto simp: trySend_def noTaskFor_iff eventsFor_def)
next
  case (receive s grp rest)
  then show ?case
    by (auto simp: noTaskFor_iff eventsFor_def)
next
  case (finish grp s fs)
  then have ne: "FileID grp \<noteq> f"
    by (auto simp: noTaskFor_iff)
  obtain checked ops where c: "checkPublicFormAsync lower fs grp = (checked, ops)"
    by force
  show ?case
    using workerStore_other [OF ne finish(2,3)] c by (simp add: workerFinish_def)
next
  case (finishOverwritten grp s hasPublicForm fs)
  then have ne: "FileID grp \<noteq> f"
    by (auto simp: noTaskFor_iff)
  show ?case
    using workerStore_other [OF ne finishOverwritten(2,3)] by simp
next
  case (recovered grp s ops)
  then have ne: "FileID grp \<noteq> f"
    by (auto simp: noTaskFor_iff)
  have "set (remove1 grp (inFlight s)) \<subseteq> set (inFlight s)"
    by (rule set_remove1_subset)
  with recovered other_file_events [OF ne, of ops] show ?case
    by (auto simp: noTaskFor_iff eventsFor_def)
qed

lemma run_keeps_verdict:
  assumes "(serverStep lower)\<^sup>*\<^sup>* s s'" and "publicFormCache s f = Some v" and "noTaskFor f s"
  shows "publicFormCache s' f = Some v \<and> noTaskFor f s' \<and> eventsFor f s' = eventsFor f s"
  using assms
proof (induction rule: rtranclp_induct)
  case base
  then show ?case by simp
next
  case (step y z)
  then show ?case
    using step_keeps_verdict [of lower y z f v] by simp
qed

lemma workerFinish_cache:
  assumes "FileID t \<noteq> []"
  shows "publicFormCache (workerFinish lower fs t s) (FileID t)
     = Some (HasPublicForm (fst (checkPublicFormAsync lower fs t)))"
  using assms by (simp add: workerFinish_def workerStore_def split: prod.splits)

text \<open>
  C3, with the condition under which the verdict stays. A request for a file of a checked
  type whose ID has a cached verdict takes exactly that verdict, leaves the cache, the
  queue and the log of file operations as they are, and does not sleep. And when a worker
  has finished the task \<open>t\<close> and nothing else is under way for the same file (no request
  that found the cache empty is still about to send, no task waits in the queue or is
  with a worker), then after any further run of the server every request for that file
  takes the verdict of that worker, and no operation on the file has been added to the
  log.
\<close>

theorem C3_cached_verdict:
  "(eligibleType lower g \<and> FileID g \<noteq> [] \<and> publicFormCache s (FileID g) = Some v \<longrightarrow>
      checkPublicForm lower between during s g
        = \<lparr>cr_group = g\<lparr>HasPublicForm := v\<rparr>, cr_state = s, cr_waited = False\<rparr>)
   \<and> (t \<in> set (inFlight s0) \<and> FileID t \<noteq> [] \<and> s1 = workerFinish lower fs t s0
        \<and> noTaskFor (FileID t) s1 \<and> (serverStep lower)\<^sup>*\<^sup>* s1 s2
        \<and> eligibleType lower g' \<and> FileID g' = FileID t \<longrightarrow>
      checkPublicForm lower between during s2 g'
        = \<lparr>cr_group = g'\<lparr>HasPublicForm := HasPublicForm (fst (checkPublicFormAsync lower fs t))\<rparr>,
           cr_state = s2, cr_waited = False\<rparr>
      \<and> eventsFor (FileID t) s2 = eventsFor (FileID t) s1)"
proof (intro conjI impI)
  assume "eligibleType lower g \<and> FileID g \<noteq> [] \<and> publicFormCache s (FileID g) = Some v"
  then show "checkPublicForm lower between during s g
        = \<lparr>cr_group = g\<lparr>HasPublicForm := v\<rparr>, cr_state = s, cr_waited = False\<rparr>"
    by (simp add: checkPublicForm_hit)
next
  assume a: "t \<in> set (inFlight s0) \<and> FileID t \<noteq> [] \<and> s1 = workerFinish lower fs t s0
        \<and> noTaskFor (FileID t) s1 \<and> (serverStep lower)\<^sup>*\<^sup>* s1 s2
        \<and> eligibleType lower g' \<and> FileID g' = FileID t"
  define v where "v = HasPublicForm (fst (checkPublicFormAsync lower fs t))"
  from a have run: "(serverStep lower)\<^sup>*\<^sup>* s1 s2" and none: "noTaskFor (FileID t) s1"
    and s1: "s1 = workerFinish lower fs t s0" and ne: "FileID t \<noteq> []"
    and g': "eligibleType lower g'" "FileID g' = FileID t"
    by blast+
  have "publicFormCache s1 (FileID t) = Some v"
    unfolding s1 v_def using ne by (rule workerFinish_cache)
  then have keep: "publicFormCache s2 (FileID t) = Some v
      \<and> noTaskFor (FileID t) s2 \<and> eventsFor (FileID t) s2 = eventsFor (FileID t) s1"
    by (rule run_keeps_verdict [OF run _ none])
  then show "checkPublicForm lower between during s2 g'
        = \<lparr>cr_group = g'\<lparr>HasPublicForm := HasPublicForm (fst (checkPublicFormAsync lower fs t))\<rparr>,
           cr_state = s2, cr_waited = False\<rparr>"
    using g' ne checkPublicForm_hit [of lower g' s2 v between during] by (simp add: v_def)
  from keep show "eventsFor (FileID t) s2 = eventsFor (FileID t) s1"
    by simp
qed

text \<open>
  C4, with the value that the code chooses. For a group of a checked type with a file ID
  and without a cached verdict, when the queue holds its 100 tasks at the moment of the
  send, \<open>checkPublicForm\<close> takes the \<open>default\<close> branch and returns at once: the flag is
  \<open>false\<close> (download allowed), the request has not slept, and the state is the one the
  server had at the send, with this request no longer pending: nothing is added to the
  queue or to the cache and no file is read. This holds whatever the rest of the server
  does.
\<close>

theorem C4_queue_full:
  assumes "eligibleType lower g" and "FileID g \<noteq> []" and "publicFormCache s (FileID g) = None"
    and "queueCapacity \<le> length (checkQueue (between (cacheMiss s g)))"
  shows "checkPublicForm lower between during s g
     = \<lparr>cr_group = g\<lparr>HasPublicForm := False\<rparr>,
        cr_state = (between (cacheMiss s g))
                     \<lparr>pending := remove1 g (pending (between (cacheMiss s g)))\<rparr>,
        cr_waited = False\<rparr>"
  using assms by (simp add: checkPublicForm_def trySend_def Let_def)

lemma eligible_examples: "eligibleType lowerASCII pdfGroup" "eligibleType lowerASCII otherGroup"
  by (simp_all add: eligibleType_def pdfGroup_def otherGroup_def lowerASCII_def)

lemma fileID_examples: "FileID pdfGroup = ''f1''" "FileID otherGroup = ''f2''"
  by (simp_all add: pdfGroup_def otherGroup_def)

lemma restrictedTail_check: "checkPublicFormInContent restrictedTail"
  by (simp add: checkPublicFormInContent_def restrictedTail_def strings_Contains_def
      publicFormMarker_def)

lemma async_good:
  "checkPublicFormAsync lowerASCII fsGood pdfGroup
     = (pdfGroup\<lparr>HasPublicForm := True\<rparr>,
        [Stat ''uploads/f1_a.pdf'', LoadDocument ''uploads/f1_a.pdf''])"
proof -
  have "length restrictedTail = 27"
    by (simp add: restrictedTail_def publicFormMarker_def fullColon_def notPublic_def)
  then show ?thesis
    using eligible_examples(1) restrictedTail_check
    by (simp add: checkPublicFormAsync_def Let_def fsGood_def loadDocumentLastPart_def
        maxCheckLength_def)
      (simp add: pdfGroup_def lowerASCII_def restrictedTail_def publicFormMarker_def)
qed

lemma async_slow:
  "checkPublicFormAsync lowerASCII fsSlow pdfGroup
     = (pdfGroup\<lparr>HasPublicForm := False\<rparr>,
        [Stat ''uploads/f1_a.pdf'', LoadDocument ''uploads/f1_a.pdf''])"
  using eligible_examples(1)
  by (simp add: checkPublicFormAsync_def Let_def fsSlow_def fsGood_def loadDocumentLastPart_def
      maxCheckLength_def checkPublicFormInContent_def)
    (simp add: pdfGroup_def lowerASCII_def)

lemma afterFirst_eq:
  "afterFirst =
     \<lparr>publicFormCache = [''f1'' \<mapsto> True], pending = [pdfGroup], checkQueue = [], inFlight = [],
      ioLog = [(''f1'', Stat ''uploads/f1_a.pdf''), (''f1'', LoadDocument ''uploads/f1_a.pdf'')]\<rparr>"
  by (simp add: afterFirst_def workerFinish_def workerStore_def async_good lateSender_def
      initialState_def fileID_examples)

lemma afterSend_eq:
  "afterSend =
     \<lparr>publicFormCache = [''f1'' \<mapsto> True], pending = [], checkQueue = [], inFlight = [pdfGroup],
      ioLog = [(''f1'', Stat ''uploads/f1_a.pdf''), (''f1'', LoadDocument ''uploads/f1_a.pdf'')]\<rparr>"
  by (simp add: afterSend_def afterFirst_eq trySend_def queueCapacity_def)

lemma afterSecond_eq:
  "afterSecond =
     \<lparr>publicFormCache = [''f1'' \<mapsto> False], pending = [], checkQueue = [], inFlight = [],
      ioLog = [(''f1'', Stat ''uploads/f1_a.pdf''), (''f1'', LoadDocument ''uploads/f1_a.pdf''),
               (''f1'', Stat ''uploads/f1_a.pdf''), (''f1'', LoadDocument ''uploads/f1_a.pdf'')]\<rparr>"
  by (simp add: afterSecond_def afterSend_eq workerFinish_def workerStore_def async_slow
      fileID_examples)

lemma reach_lateSender: "(serverStep lowerASCII)\<^sup>*\<^sup>* initialState lateSender"
proof -
  define q1 where "q1 = initialState\<lparr>pending := [pdfGroup]\<rparr>"
  define q2 where "q2 = initialState\<lparr>pending := [pdfGroup, pdfGroup]\<rparr>"
  define q3 where "q3 = initialState\<lparr>pending := [pdfGroup], checkQueue := [pdfGroup]\<rparr>"
  have "cacheMiss initialState pdfGroup = q1"
    by (simp add: cacheMiss_def initialState_def q1_def)
  then have 1: "serverStep lowerASCII initialState q1"
    using serverStep.miss [of lowerASCII pdfGroup initialState] eligible_examples(1)
    by (simp add: fileID_examples initialState_def)
  have "cacheMiss q1 pdfGroup = q2"
    by (simp add: cacheMiss_def initialState_def q1_def q2_def)
  then have 2: "serverStep lowerASCII q1 q2"
    using serverStep.miss [of lowerASCII pdfGroup q1] eligible_examples(1)
    by (simp add: fileID_examples initialState_def q1_def)
  have "trySend q2 pdfGroup = q3"
    by (simp add: trySend_def initialState_def q2_def q3_def queueCapacity_def)
  then have 3: "serverStep lowerASCII q2 q3"
    using serverStep.send [of pdfGroup q2 lowerASCII] by (simp add: q2_def initialState_def)
  have 4: "serverStep lowerASCII q3 lateSender"
    using serverStep.receive [of q3 pdfGroup "[]" lowerASCII]
    by (simp add: q3_def lateSender_def initialState_def checkWorkers_def)
  from 1 2 3 4 show ?thesis
    by (meson rtranclp.rtrancl_into_rtrancl rtranclp.rtrancl_refl)
qed

lemma reach_afterSecond: "(serverStep lowerASCII)\<^sup>*\<^sup>* afterFirst afterSecond"
proof -
  have 1: "serverStep lowerASCII afterFirst (trySend afterFirst pdfGroup)"
    by (rule serverStep.send) (simp add: afterFirst_eq)
  have q: "checkQueue (trySend afterFirst pdfGroup) = [pdfGroup]"
    "inFlight (trySend afterFirst pdfGroup) = []"
    by (simp_all add: afterFirst_eq trySend_def queueCapacity_def)
  have 2: "serverStep lowerASCII (trySend afterFirst pdfGroup) afterSend"
    using serverStep.receive [of "trySend afterFirst pdfGroup" pdfGroup "[]" lowerASCII] q
    by (simp add: afterSend_def checkWorkers_def)
  have 3: "serverStep lowerASCII afterSend afterSecond"
    unfolding afterSecond_def
    by (rule serverStep.finish) (simp add: afterSend_eq)
  from 1 2 3 show ?thesis
    by (meson rtranclp.rtrancl_into_rtrancl rtranclp.rtrancl_refl)
qed

text \<open>
  Two requests for the file \<open>f1\<close> find the cache empty. The first sends its task, and a
  worker finds the marker and caches \<open>true\<close>; at that moment no task for the file waits in
  the queue or is with a worker, and a request sees \<open>true\<close>. The second request, which
  had read the cache before the store, now sends its task; the worker that takes it
  runs into the loading deadline and overwrites the verdict with \<open>false\<close>. A request
  after that sees \<open>false\<close>, and the file has been loaded twice.
\<close>

theorem C3_counterexample:
  "(serverStep lowerASCII)\<^sup>*\<^sup>* initialState lateSender
   \<and> serverStep lowerASCII lateSender afterFirst
   \<and> checkQueue afterFirst = [] \<and> inFlight afterFirst = []
   \<and> cr_group (checkPublicForm lowerASCII id id afterFirst pdfGroup)
       = pdfGroup\<lparr>HasPublicForm := True\<rparr>
   \<and> (serverStep lowerASCII)\<^sup>*\<^sup>* afterFirst afterSecond
   \<and> cr_group (checkPublicForm lowerASCII id id afterSecond pdfGroup)
       = pdfGroup\<lparr>HasPublicForm := False\<rparr>
   \<and> eventsFor ''f1'' afterSecond
       = [Stat ''uploads/f1_a.pdf'', LoadDocument ''uploads/f1_a.pdf'',
          Stat ''uploads/f1_a.pdf'', LoadDocument ''uploads/f1_a.pdf'']"
proof -
  have a: "serverStep lowerASCII lateSender afterFirst"
    unfolding afterFirst_def
    by (rule serverStep.finish) (simp add: lateSender_def)
  have b: "checkQueue afterFirst = []" "inFlight afterFirst = []"
    by (simp_all add: afterFirst_eq)
  have c: "cr_group (checkPublicForm lowerASCII id id afterFirst pdfGroup)
      = pdfGroup\<lparr>HasPublicForm := True\<rparr>"
    using eligible_examples(1) by (simp add: checkPublicForm_def afterFirst_eq fileID_examples)
  have d: "cr_group (checkPublicForm lowerASCII id id afterSecond pdfGroup)
      = pdfGroup\<lparr>HasPublicForm := False\<rparr>"
    using eligible_examples(1) by (simp add: checkPublicForm_def afterSecond_eq fileID_examples)
  have e: "eventsFor ''f1'' afterSecond
       = [Stat ''uploads/f1_a.pdf'', LoadDocument ''uploads/f1_a.pdf'',
          Stat ''uploads/f1_a.pdf'', LoadDocument ''uploads/f1_a.pdf'']"
    by (simp add: eventsFor_def afterSecond_eq)
  from reach_lateSender a b c reach_afterSecond d e show ?thesis
    by simp
qed

theorem C3_witness:
  "checkPublicForm lowerASCII id id (workerFinish lowerASCII fsGood pdfGroup oneInFlight) pdfGroup
     = \<lparr>cr_group = pdfGroup\<lparr>HasPublicForm := True\<rparr>,
        cr_state = workerFinish lowerASCII fsGood pdfGroup oneInFlight, cr_waited = False\<rparr>
   \<and> checkPublicForm lowerASCII id id
        (trySend (cacheMiss (workerFinish lowerASCII fsGood pdfGroup oneInFlight) otherGroup)
           otherGroup)
        pdfGroup
     = \<lparr>cr_group = pdfGroup\<lparr>HasPublicForm := True\<rparr>,
        cr_state = trySend (cacheMiss (workerFinish lowerASCII fsGood pdfGroup oneInFlight)
                              otherGroup) otherGroup,
        cr_waited = False\<rparr>
   \<and> checkQueue (trySend (cacheMiss (workerFinish lowerASCII fsGood pdfGroup oneInFlight)
        otherGroup) otherGroup) = [otherGroup]
   \<and> eventsFor ''f1''
        (trySend (cacheMiss (workerFinish lowerASCII fsGood pdfGroup oneInFlight) otherGroup)
           otherGroup)
       = [Stat ''uploads/f1_a.pdf'', LoadDocument ''uploads/f1_a.pdf'']"
proof -
  define s1 where "s1 = workerFinish lowerASCII fsGood pdfGroup oneInFlight"
  define s2 where "s2 = trySend (cacheMiss s1 otherGroup) otherGroup"
  note fid = fileID_examples
  have s1_eq: "s1 = \<lparr>publicFormCache = [''f1'' \<mapsto> True], pending = [], checkQueue = [],
      inFlight = [],
      ioLog = [(''f1'', Stat ''uploads/f1_a.pdf''), (''f1'', LoadDocument ''uploads/f1_a.pdf'')]\<rparr>"
    by (simp add: s1_def workerFinish_def workerStore_def async_good oneInFlight_def
        initialState_def fid)
  have s2_eq: "s2 = s1\<lparr>checkQueue := [otherGroup]\<rparr>"
    by (simp add: s2_def cacheMiss_def trySend_def s1_eq queueCapacity_def)
  have h1: "pdfGroup \<in> set (inFlight oneInFlight)"
    by (simp add: oneInFlight_def initialState_def)
  have h2: "noTaskFor (FileID pdfGroup) s1"
    by (simp add: noTaskFor_def s1_eq)
  have m: "serverStep lowerASCII s1 (cacheMiss s1 otherGroup)"
    using eligible_examples(2) by (intro serverStep.miss) (simp_all add: fid s1_eq)
  have "serverStep lowerASCII (cacheMiss s1 otherGroup) s2"
    unfolding s2_def by (rule serverStep.send) (simp add: cacheMiss_def)
  with m have h3: "(serverStep lowerASCII)\<^sup>*\<^sup>* s1 s2"
    by (meson rtranclp.rtrancl_into_rtrancl rtranclp.rtrancl_refl)
  have h4: "publicFormCache s1 (FileID pdfGroup) = Some True"
    by (simp add: s1_eq fid)
  have v: "HasPublicForm (fst (checkPublicFormAsync lowerASCII fsGood pdfGroup))"
    by (simp add: async_good)
  note inst = C3_cached_verdict
    [of lowerASCII pdfGroup s1 True id id pdfGroup oneInFlight s1 fsGood s2 pdfGroup]
  have ne: "FileID pdfGroup \<noteq> []"
    by (simp add: fid)
  have first: "checkPublicForm lowerASCII id id s1 pdfGroup
     = \<lparr>cr_group = pdfGroup\<lparr>HasPublicForm := True\<rparr>, cr_state = s1, cr_waited = False\<rparr>"
    using inst eligible_examples(1) h4 ne by blast
  have second: "checkPublicForm lowerASCII id id s2 pdfGroup
     = \<lparr>cr_group = pdfGroup\<lparr>HasPublicForm := True\<rparr>, cr_state = s2, cr_waited = False\<rparr>
     \<and> eventsFor (FileID pdfGroup) s2 = eventsFor (FileID pdfGroup) s1"
    using inst eligible_examples(1) h1 h2 h3 ne v s1_def by auto
  have "eventsFor ''f1'' s1 = [Stat ''uploads/f1_a.pdf'', LoadDocument ''uploads/f1_a.pdf'']"
    by (simp add: eventsFor_def s1_eq)
  moreover have "checkQueue s2 = [otherGroup]"
    by (simp add: s2_eq)
  ultimately show ?thesis
    using first second fid unfolding s2_def s1_def by simp
qed

theorem C4_witness:
  "eligibleType lowerASCII otherGroup \<and> FileID otherGroup \<noteq> []
   \<and> publicFormCache fullState (FileID otherGroup) = None
   \<and> queueCapacity \<le> length (checkQueue (id (cacheMiss fullState otherGroup)))
   \<and> checkPublicForm lowerASCII id id fullState otherGroup
       = \<lparr>cr_group = otherGroup\<lparr>HasPublicForm := False\<rparr>, cr_state = fullState,
          cr_waited = False\<rparr>"
proof -
  have h1: "eligibleType lowerASCII otherGroup"
    by (rule eligible_examples(2))
  have h2: "FileID otherGroup \<noteq> []"
    by (simp add: fileID_examples)
  have h3: "publicFormCache fullState (FileID otherGroup) = None"
    by (simp add: fullState_def initialState_def)
  have h4: "queueCapacity \<le> length (checkQueue (id (cacheMiss fullState otherGroup)))"
    by (simp add: fullState_def cacheMiss_def queueCapacity_def)
  have "(id (cacheMiss fullState otherGroup))
          \<lparr>pending := remove1 otherGroup (pending (id (cacheMiss fullState otherGroup)))\<rparr>
        = fullState"
    by (simp add: cacheMiss_def fullState_def initialState_def)
  with C4_queue_full [of lowerASCII otherGroup fullState id id] h1 h2 h3 h4 show ?thesis
    by simp
qed

text \<open>
  The value is not the cautious one. The file \<open>f1\<close> ends with the marker, and a worker
  that checks it sets the flag; a request for it that meets the full queue reports it
  with the flag \<open>false\<close>, as a document that may be downloaded.
\<close>

theorem C4_counterexample:
  "HasPublicForm (fst (checkPublicFormAsync lowerASCII fsGood pdfGroup)) = True
   \<and> length (checkQueue fullState) = 100
   \<and> HasPublicForm (cr_group (checkPublicForm lowerASCII id id fullState pdfGroup)) = False"
proof -
  have "pdfGroup \<noteq> otherGroup"
    by (simp add: pdfGroup_def otherGroup_def)
  then show ?thesis
    using eligible_examples(1)
    by (simp add: async_good checkPublicForm_def cacheMiss_def trySend_def fullState_def
        initialState_def queueCapacity_def fileID_examples)
qed

subsection \<open>The query, the prompt and the groups of the response\<close>

lemma producedFrom_member:
  "res \<in> set (producedFrom lower used i ds) \<Longrightarrow>
     \<exists>n < length ds. res = processDoc lower (i + n) (ds ! n) \<and> usedAt used (i + n + 1)"
proof (induction ds arbitrary: i)
  case Nil
  then show ?case by simp
next
  case (Cons d ds)
  show ?case
  proof (cases "res = processDoc lower i d \<and> usedAt used (i + 1)")
    case True
    then show ?thesis by (intro exI [of _ 0]) simp
  next
    case False
    with Cons.prems have "res \<in> set (producedFrom lower used (Suc i) ds)"
      by (auto split: if_splits)
    from Cons.IH [OF this] obtain n where "n < length ds"
      "res = processDoc lower (Suc i + n) (ds ! n)" "usedAt used (Suc i + n + 1)"
      by blast
    then show ?thesis
      by (intro exI [of _ "Suc n"]) simp
  qed
qed

lemma mergeGroup_chunks:
  assumes "\<forall>kg \<in> set gs. \<forall>c \<in> set (Chunks (snd kg)). P c"
    and "P (pr_result res)" and "\<forall>c \<in> set (Chunks (pr_group res)). P c"
  shows "\<forall>kg \<in> set (mergeGroup res gs). \<forall>c \<in> set (Chunks (snd kg)). P c"
  using assms
proof (induction gs)
  case Nil
  then show ?case by simp
next
  case (Cons a gs)
  obtain key existingGroup where a: "a = (key, existingGroup)"
    by (cases a)
  show ?case
  proof (cases "key = pr_groupKey res")
    case True
    then show ?thesis
      using Cons.prems a by simp
  next
    case False
    have "\<forall>kg \<in> set (mergeGroup res gs). \<forall>c \<in> set (Chunks (snd kg)). P c"
      using Cons.prems by (intro Cons.IH) simp_all
    then show ?thesis
      using False Cons.prems(1) a by simp
  qed
qed

lemma collectResults_chunks:
  assumes "\<forall>kg \<in> set gs. \<forall>c \<in> set (Chunks (snd kg)). P c" and "\<forall>c \<in> set flat. P c"
    and "\<forall>res \<in> set msgs. P (pr_result res) \<and> (\<forall>c \<in> set (Chunks (pr_group res)). P c)"
  shows "(\<forall>kg \<in> set (fst (collectResults msgs (gs, flat))). \<forall>c \<in> set (Chunks (snd kg)). P c)
       \<and> (\<forall>c \<in> set (snd (collectResults msgs (gs, flat))). P c)"
  using assms
proof (induction msgs arbitrary: gs flat)
  case Nil
  then show ?case by simp
next
  case (Cons res msgs)
  have res: "P (pr_result res)" "\<forall>c \<in> set (Chunks (pr_group res)). P c"
    using Cons.prems(3) by simp_all
  have rest: "\<forall>r \<in> set msgs. P (pr_result r) \<and> (\<forall>c \<in> set (Chunks (pr_group r)). P c)"
    using Cons.prems(3) by simp
  have g: "\<forall>kg \<in> set (mergeGroup res gs). \<forall>c \<in> set (Chunks (snd kg)). P c"
    using Cons.prems(1) res by (rule mergeGroup_chunks)
  have f: "\<forall>c \<in> set (flat @ [pr_result res]). P c"
    using Cons.prems(2) res(1) by simp
  have "collectResults (res # msgs) (gs, flat)
      = collectResults msgs (mergeGroup res gs, flat @ [pr_result res])"
    by simp
  then show ?case
    using Cons.IH [OF g f rest] by (simp only:)
qed

lemma promptSections_contains:
  "n < length ds \<Longrightarrow> strings_Contains (promptSections i ds) (promptSection (i + n) (ds ! n))"
proof (induction ds arbitrary: i n)
  case Nil
  then show ?case by simp
next
  case (Cons d ds)
  show ?case
  proof (cases n)
    case 0
    then show ?thesis
      by (simp add: strings_Contains_def)
  next
    case (Suc m)
    with Cons.prems have "strings_Contains (promptSections (Suc i) ds) (promptSection (Suc i + m) (ds ! m))"
      by (intro Cons.IH) simp
    then show ?thesis
      using Suc by (simp add: strings_Contains_def sublist_append)
  qed
qed

lemma buildPrompt_contains:
  assumes "n < length results"
  shows "strings_Contains (buildPrompt text question results) (promptSection n (results ! n))"
proof -
  have "sublist (promptSection n (results ! n)) (promptSections 0 results)"
    using promptSections_contains [OF assms, of 0] by (simp add: strings_Contains_def)
  then show ?thesis
    by (simp add: buildPrompt_def strings_Contains_def sublist_append)
qed

lemma QueryWithResults_generated:
  assumes "QueryWithResults lower text search generate question topK = Inr qr"
    and "Results qr \<noteq> []"
  shows "generate (buildPrompt text question (Results qr)) = Inr (Answer qr)"
proof -
  obtain allResults where s: "search question (searchTopK topK) = Some allResults"
    using assms(1) by (cases "search question (searchTopK topK)") (simp_all add: QueryWithResults_def)
  obtain reranked where r: "reRankResults lower question allResults topK = Inr reranked"
    using assms(1) s
    by (cases "reRankResults lower question allResults topK") (simp_all add: QueryWithResults_def)
  define results where "results = filterRelevantResults lower question reranked"
  have ne: "results \<noteq> []"
  proof
    assume "results = []"
    then have "qr = \<lparr>Answer = apology, Results = []\<rparr>"
      using assms(1) by (simp add: QueryWithResults_def s r results_def)
    with assms(2) show False by simp
  qed
  have q: "(case generate (buildPrompt text question results) of
              Inl DeadlineExceeded \<Rightarrow> Inl GenerationTimeout
            | Inl ProviderError \<Rightarrow> Inl FailedToGenerate
            | Inr answer \<Rightarrow> Inr \<lparr>Answer = answer, Results = results\<rparr>) = Inr qr"
    using assms(1) ne by (simp add: QueryWithResults_def s r results_def [symmetric])
  then obtain answer where a: "generate (buildPrompt text question results) = Inr answer"
    by (cases "generate (buildPrompt text question results)") (auto split: gen_error.splits)
  with q have "qr = \<lparr>Answer = answer, Results = results\<rparr>"
    by simp
  with a show ?thesis
    by simp
qed


lemma processDoc_index: "c_index (pr_result (processDoc lower n d)) = n + 1"
  by (simp add: processDoc_def Let_def)

lemma processDoc_group_chunks: "Chunks (pr_group (processDoc lower n d)) = [pr_result (processDoc lower n d)]"
  by (simp add: processDoc_def Let_def)

lemma collected_cited:
  assumes "mset arrivals
        = mset (producedFrom lower (extractUsedAnnotations (Answer qr)) 0 (Results qr))"
  shows "(\<forall>kg \<in> set (fst (collectResults arrivals ([], []))). \<forall>c \<in> set (Chunks (snd kg)).
            citedFrom lower qr c)
       \<and> (\<forall>c \<in> set (snd (collectResults arrivals ([], []))). citedFrom lower qr c)"
proof (rule collectResults_chunks)
  show "\<forall>kg \<in> set []. \<forall>c \<in> set (Chunks (snd kg)). citedFrom lower qr c"
    by simp
  show "\<forall>c \<in> set []. citedFrom lower qr c"
    by simp
  show "\<forall>res \<in> set arrivals. citedFrom lower qr (pr_result res)
          \<and> (\<forall>c \<in> set (Chunks (pr_group res)). citedFrom lower qr c)"
  proof
    fix res
    assume "res \<in> set arrivals"
    then have "res \<in> set (producedFrom lower (extractUsedAnnotations (Answer qr)) 0 (Results qr))"
      using assms by (metis set_mset_mset)
    from producedFrom_member [OF this] obtain n where n: "n < length (Results qr)"
      "res = processDoc lower n (Results qr ! n)"
      "usedAt (extractUsedAnnotations (Answer qr)) (n + 1)"
      by auto
    then have "citedFrom lower qr (pr_result res)"
      by (simp add: citedFrom_def processDoc_index)
    then show "citedFrom lower qr (pr_result res)
          \<and> (\<forall>c \<in> set (Chunks (pr_group res)). citedFrom lower qr c)"
      using n(2) by (simp add: processDoc_group_chunks)
  qed
qed

lemma response_chunks_cited:
  assumes "validSchedule lower qr arrivals docGroups"
    and "c \<in> set (r_results (handleQuery qr arrivals docGroups))
         \<or> (\<exists>g \<in> set (r_docGroups (handleQuery qr arrivals docGroups)). c \<in> set (Chunks g))"
  shows "\<exists>c0. citedFrom lower qr c0 \<and> (c = c0 \<or> c = limitChunk c0)"
proof -
  from assms(1) have arr: "mset arrivals
        = mset (producedFrom lower (extractUsedAnnotations (Answer qr)) 0 (Results qr))"
    and grp: "mset (map (\<lambda>g. g\<lparr>HasPublicForm := False\<rparr>) docGroups)
        = mset (map (\<lambda>kg. (snd kg)\<lparr>HasPublicForm := False\<rparr>)
                  (fst (collectResults arrivals ([], []))))"
    by (simp_all add: validSchedule_def)
  note cited = collected_cited [OF arr]
  from assms(2) show ?thesis
  proof
    assume "c \<in> set (r_results (handleQuery qr arrivals docGroups))"
    then obtain c0 where "c0 \<in> set (snd (collectResults arrivals ([], [])))"
      "c = c0 \<or> c = limitChunk c0"
      by (auto simp: handleQuery_def Let_def)
    with cited show ?thesis
      by blast
  next
    assume "\<exists>g \<in> set (r_docGroups (handleQuery qr arrivals docGroups)). c \<in> set (Chunks g)"
    then obtain g where g: "g \<in> set (limitDocGroups docGroups)" "c \<in> set (Chunks g)"
      by (auto simp: handleQuery_def Let_def)
    then obtain g0 where g0: "g0 \<in> set docGroups" "g = limitGroup g0"
      by (auto simp: limitDocGroups_def dest: in_set_takeD split: if_splits)
    from g(2) g0(2) obtain c0 where c0: "c0 \<in> set (Chunks g0)" "c = limitChunk c0"
      using limitGroup_chunks(2) by blast
    from g0(1) have "g0\<lparr>HasPublicForm := False\<rparr>
        \<in> set (map (\<lambda>g. g\<lparr>HasPublicForm := False\<rparr>) docGroups)"
      by simp
    then have "g0\<lparr>HasPublicForm := False\<rparr>
        \<in> set (map (\<lambda>kg. (snd kg)\<lparr>HasPublicForm := False\<rparr>) (fst (collectResults arrivals ([], []))))"
      using grp by (metis set_mset_mset)
    then obtain kg where kg: "kg \<in> set (fst (collectResults arrivals ([], [])))"
      "g0\<lparr>HasPublicForm := False\<rparr> = (snd kg)\<lparr>HasPublicForm := False\<rparr>"
      by auto
    from kg(2) have "Chunks g0 = Chunks (snd kg)"
      by (metis DocGroup.select_convs(7) DocGroup.surjective DocGroup.update_convs(5))
    with c0(1) have "c0 \<in> set (Chunks (snd kg))"
      by simp
    with kg(1) cited have "citedFrom lower qr c0"
      by blast
    with c0(2) show ?thesis
      by blast
  qed
qed

text \<open>
  C2. Let the query return \<open>qr\<close>, and let \<open>c\<close> be any chunk of the response, in the flat
  list or in a group, for any order of arrival of the messages and any order of the
  groups. Then the number of \<open>c\<close> is a position of \<open>qr.Results\<close>, counted from 1, that the
  answer marks as used; \<open>c\<close> is the chunk built from the passage at that position, as it
  is or with its text cut by the limiter; the answer was generated from the prompt built
  from \<open>qr.Results\<close>; and that prompt contains the section that gives this very passage the
  same number and the marker of that number.
\<close>

theorem C2_index_stable:
  assumes "QueryWithResults lower text search generate question topK = Inr qr"
    and "validSchedule lower qr arrivals docGroups"
    and "c \<in> set (r_results (handleQuery qr arrivals docGroups))
         \<or> (\<exists>g \<in> set (r_docGroups (handleQuery qr arrivals docGroups)). c \<in> set (Chunks g))"
  shows "1 \<le> c_index c \<and> c_index c \<le> length (Results qr)
       \<and> usedAt (extractUsedAnnotations (Answer qr)) (c_index c)
       \<and> (c = pr_result (processDoc lower (c_index c - 1) (Results qr ! (c_index c - 1)))
          \<or> c = limitChunk
                 (pr_result (processDoc lower (c_index c - 1) (Results qr ! (c_index c - 1)))))
       \<and> generate (buildPrompt text question (Results qr)) = Inr (Answer qr)
       \<and> strings_Contains (buildPrompt text question (Results qr))
            (promptSection (c_index c - 1) (Results qr ! (c_index c - 1)))"
proof -
  from response_chunks_cited [OF assms(2,3)] obtain c0 where
    c0: "citedFrom lower qr c0" "c = c0 \<or> c = limitChunk c0"
    by blast
  have idx: "c_index c = c_index c0"
    using c0(2) by (auto simp: limitChunk_def)
  from c0(1) have range: "1 \<le> c_index c0" "c_index c0 \<le> length (Results qr)"
    and used: "usedAt (extractUsedAnnotations (Answer qr)) (c_index c0)"
    and eq: "c0 = pr_result (processDoc lower (c_index c0 - 1) (Results qr ! (c_index c0 - 1)))"
    by (simp_all add: citedFrom_def)
  from range have ne: "Results qr \<noteq> []" and lt: "c_index c0 - 1 < length (Results qr)"
    by auto
  have gen: "generate (buildPrompt text question (Results qr)) = Inr (Answer qr)"
    using assms(1) ne by (rule QueryWithResults_generated)
  have sec: "strings_Contains (buildPrompt text question (Results qr))
            (promptSection (c_index c0 - 1) (Results qr ! (c_index c0 - 1)))"
    using lt by (rule buildPrompt_contains)
  from c0(2) eq have "c = pr_result (processDoc lower (c_index c0 - 1) (Results qr ! (c_index c0 - 1)))
          \<or> c = limitChunk
                 (pr_result (processDoc lower (c_index c0 - 1) (Results qr ! (c_index c0 - 1))))"
    by metis
  with range used gen sec show ?thesis
    unfolding idx by simp
qed




lemma coreKeywords_question1: "coreKeywordsOf question1 = [''ab'']"
  unfolding coreKeywordsOf_def runes_question1
  by (simp add: filterStopWords_def rerankStopWords_def utf8_eval)

lemma filter_BC: "filterRelevantResults lowerASCII question1 [docB, docC] = [docC]"
  by (simp add: filterRelevantResults_def lowerASCII_examples coreKeywords_question1
      hasRelevantKeyword_def docB_def docC_def str_eval)

lemma query_BC:
  "QueryWithResults lowerASCII samplePrompt (\<lambda>q k. Some [docB, docC]) (\<lambda>p. Inr answerOneThree)
     question1 3 = Inr \<lparr>Answer = answerOneThree, Results = [docC]\<rparr>"
  by (simp add: QueryWithResults_def reRankResults_def filter_BC)

lemma used_answerOneThree:
  "usedAt (extractUsedAnnotations answerOneThree) 1"
  by (simp add: usedAt_extract answerOneThree_def circleNumbers_def str_eval)

lemma produced_C:
  "producedFrom lowerASCII (extractUsedAnnotations answerOneThree) 0 [docC]
     = [processDoc lowerASCII 0 docC]"
  using used_answerOneThree by simp

lemma processDoc_C:
  "processDoc lowerASCII 0 docC =
     \<lparr>pr_index = 1,
      pr_result = \<lparr>c_content = ''xab'', c_pageContent = ''xab'', c_index = 1,
                   c_source = ''uploads/f1_a.pdf'', c_title = ''f1_a.pdf'', c_preview = ''xab''\<rparr>,
      pr_groupKey = ''uploads/f1_a.pdf'',
      pr_group = \<lparr>DocTitle = ''f1_a.pdf'', DocSource = ''uploads/f1_a.pdf'', SourceType = ''file'',
                  FileType = ''pdf'', HasPublicForm = False, FileID = ''f1'',
                  Chunks = [\<lparr>c_content = ''xab'', c_pageContent = ''xab'', c_index = 1,
                             c_source = ''uploads/f1_a.pdf'', c_title = ''f1_a.pdf'',
                             c_preview = ''xab''\<rparr>]\<rparr>\<rparr>"
  by (simp add: processDoc_def metaFromSource_def metaFromFileName_def docC_def Let_def
      filepath_Base_def filepath_Ext_def strings_IndexByte_def extractOriginalFilename_def
      lowerASCII_def str_eval)



theorem C2_witness:
  "QueryWithResults lowerASCII samplePrompt (\<lambda>q k. Some [docB, docC]) (\<lambda>p. Inr answerOneThree)
     question1 3 = Inr \<lparr>Answer = answerOneThree, Results = [docC]\<rparr>
   \<and> validSchedule lowerASCII \<lparr>Answer = answerOneThree, Results = [docC]\<rparr>
        [processDoc lowerASCII 0 docC]
        [(pr_group (processDoc lowerASCII 0 docC))\<lparr>HasPublicForm := True\<rparr>]
   \<and> r_results (handleQuery \<lparr>Answer = answerOneThree, Results = [docC]\<rparr>
        [processDoc lowerASCII 0 docC]
        [(pr_group (processDoc lowerASCII 0 docC))\<lparr>HasPublicForm := True\<rparr>])
       = [pr_result (processDoc lowerASCII 0 docC)]
   \<and> c_index (pr_result (processDoc lowerASCII 0 docC)) = 1
   \<and> usedAt (extractUsedAnnotations answerOneThree) 1
   \<and> strings_Contains (buildPrompt samplePrompt question1 [docC]) (promptSection 0 docC)"
proof -
  define qr where "qr = \<lparr>Answer = answerOneThree, Results = [docC]\<rparr>"
  define res where "res = processDoc lowerASCII 0 docC"
  define g where "g = (pr_group res)\<lparr>HasPublicForm := True\<rparr>"
  have q: "QueryWithResults lowerASCII samplePrompt (\<lambda>q k. Some [docB, docC])
      (\<lambda>p. Inr answerOneThree) question1 3 = Inr qr"
    unfolding qr_def by (rule query_BC)
  have v: "validSchedule lowerASCII qr [res] [g]"
    using used_answerOneThree by (simp add: validSchedule_def qr_def res_def g_def)
  have r: "r_results (handleQuery qr [res] [g]) = [pr_result res]"
    by (simp add: handleQuery_def g_def res_def processDoc_C truncatedIndices_def limitChunk_def
        truncateText_def maxChunkContentLength_def maxChunksPerGroup_def maxDocGroups_def)
  then have m: "pr_result res \<in> set (r_results (handleQuery qr [res] [g]))
      \<or> (\<exists>grp \<in> set (r_docGroups (handleQuery qr [res] [g])). pr_result res \<in> set (Chunks grp))"
    by simp
  have i: "c_index (pr_result res) = 1"
    by (simp add: res_def processDoc_index)
  note inst = C2_index_stable [OF q v m, unfolded i diff_self_eq_0]
  from inst have u: "usedAt (extractUsedAnnotations (Answer qr)) 1"
    by blast
  from inst have s: "strings_Contains (buildPrompt samplePrompt question1 (Results qr))
          (promptSection 0 (Results qr ! 0))"
    by blast
  from u s show ?thesis
    using q v r i unfolding qr_def res_def g_def by simp
qed

subsection \<open>UTF-8: decoding what was encoded\<close>

lemma mod_offset:
  fixes a :: nat
  assumes "a < m"
  shows "(k * m + a) mod m = a"
  using assms by simp

lemma cont_byte:
  fixes b :: nat
  assumes "b < 64"
  shows "(128 + b) mod 256 = 128 + b" "(128 + b) mod 64 = b"
  using assms mod_offset [of b 64 2] by simp_all

lemma split_6_6:
  fixes r :: nat
  shows "r = (r div 64 div 64) * 4096 + ((r div 64) mod 64) * 64 + r mod 64"
proof -
  have "r = (r div 64) * 64 + r mod 64"
    by simp
  moreover have "r div 64 = (r div 64 div 64) * 64 + (r div 64) mod 64"
    by simp
  ultimately show ?thesis
    by linarith
qed

lemma decode_encode1:
  assumes "r \<le> 0x7F"
  shows "decodeRune (encodeRune r @ rest) = (r, 1)"
  using assms by (simp add: encodeRune_def)

lemma decode_encode2:
  assumes "0x80 \<le> r" and "r \<le> 0x7FF"
  shows "decodeRune (encodeRune r @ rest) = (r, 2)"
proof -
  define a where "a = r div 64"
  define b where "b = r mod 64"
  have r: "r = a * 64 + b" and b: "b < 64"
    by (simp_all add: a_def b_def)
  have a: "2 \<le> a" "a < 32"
    using assms by (simp_all add: a_def)
  have enc: "encodeRune r = [char_of (0xC0 + a), char_of (0x80 + b)]"
    using assms by (simp add: encodeRune_def a_def b_def)
  have s0: "(0xC0 + a) mod 256 = 0xC0 + a" "(0xC0 + a) mod 32 = a"
    using a mod_offset [of a 32 6] by simp_all
  note s1 = cont_byte [OF b]
  show ?thesis
    unfolding enc using a b s0 s1 by (simp add: r)
qed

lemma decode_encode3:
  assumes "0x800 \<le> r" and "r \<le> 0xFFFF" and "\<not> (0xD800 \<le> r \<and> r \<le> 0xDFFF)"
  shows "decodeRune (encodeRune r @ rest) = (r, 3)"
proof -
  define a where "a = r div 64 div 64"
  define b where "b = (r div 64) mod 64"
  define c where "c = r mod 64"
  have r: "r = a * 4096 + b * 64 + c"
    unfolding a_def b_def c_def by (rule split_6_6)
  have bc: "b < 64" "c < 64"
    by (simp_all add: b_def c_def)
  have a: "a < 16"
    using assms by (simp add: a_def div_mult2_eq [symmetric])
  have lo: "a = 0 \<Longrightarrow> 32 \<le> b"
    using assms(1) bc unfolding r by simp
  have hi: "a = 13 \<Longrightarrow> b < 32"
    using assms(3) bc unfolding r by simp
  have "\<not> r \<le> 0x7F" "\<not> r \<le> 0x7FF" "\<not> (0x10FFFF < r \<or> (0xD800 \<le> r \<and> r \<le> 0xDFFF))"
    using assms by linarith+
  then have enc: "encodeRune r = [char_of (0xE0 + a), char_of (0x80 + b), char_of (0x80 + c)]"
    using assms(2) by (auto simp: encodeRune_def a_def b_def c_def div_mult2_eq [symmetric])
  have s0: "(0xE0 + a) mod 256 = 0xE0 + a" "(0xE0 + a) mod 16 = a"
    using a mod_offset [of a 16 14] by simp_all
  note s1 = cont_byte [OF bc(1)]
  note s2 = cont_byte [OF bc(2)]
  show ?thesis
    unfolding enc using a bc lo hi s0 s1 s2 by (auto simp: r Let_def)
qed

lemma decode_encode4:
  assumes "0x10000 \<le> r" and "r \<le> 0x10FFFF"
  shows "decodeRune (encodeRune r @ rest) = (r, 4)"
proof -
  define q where "q = r div 64"
  define a where "a = q div 64 div 64"
  define b where "b = (q div 64) mod 64"
  define c where "c = q mod 64"
  define d where "d = r mod 64"
  have q: "q = a * 4096 + b * 64 + c"
    unfolding a_def b_def c_def by (rule split_6_6)
  have "r = q * 64 + d"
    by (simp add: q_def d_def)
  with q have r: "r = a * 262144 + b * 4096 + c * 64 + d"
    by simp
  have bcd: "b < 64" "c < 64" "d < 64"
    by (simp_all add: b_def c_def d_def)
  have a: "a < 5"
    using assms by (simp add: a_def q_def div_mult2_eq [symmetric])
  have lo: "a = 0 \<Longrightarrow> 16 \<le> b"
    using assms(1) bcd unfolding r by simp
  have hi: "a = 4 \<Longrightarrow> b < 16"
    using assms(2) bcd unfolding r by simp
  have "r div 262144 = a" "(r div 4096) mod 64 = b" "(r div 64) mod 64 = c"
    by (simp_all add: a_def b_def c_def q_def div_mult2_eq [symmetric])
  then have enc: "encodeRune r
      = [char_of (0xF0 + a), char_of (0x80 + b), char_of (0x80 + c), char_of (0x80 + d)]"
    using assms by (simp add: encodeRune_def d_def)
  have s0: "(0xF0 + a) mod 256 = 0xF0 + a" "(0xF0 + a) mod 8 = a"
    using a mod_offset [of a 8 30] by simp_all
  note s1 = cont_byte [OF bcd(1)]
  note s2 = cont_byte [OF bcd(2)]
  note s3 = cont_byte [OF bcd(3)]
  show ?thesis
    unfolding enc using a bcd lo hi s0 s1 s2 s3 by (auto simp: r Let_def)
qed

lemma decode_encode:
  assumes "validRune r"
  shows "decodeRune (encodeRune r @ rest) = (r, length (encodeRune r))"
proof -
  consider "r \<le> 0x7F" | "0x80 \<le> r" "r \<le> 0x7FF" | "0x800 \<le> r" "r \<le> 0xFFFF"
    | "0x10000 \<le> r" "r \<le> 0x10FFFF"
    using assms unfolding validRune_def by linarith
  then show ?thesis
  proof cases
    case 1
    then show ?thesis
      using decode_encode1 [OF 1, of rest] by (simp add: encodeRune_def)
  next
    case 2
    then show ?thesis
      using decode_encode2 [OF 2, of rest] by (simp add: encodeRune_def)
  next
    case 3
    then show ?thesis
      using decode_encode3 [OF 3, of rest] assms by (simp add: encodeRune_def validRune_def)
  next
    case 4
    then show ?thesis
      using decode_encode4 [OF 4, of rest] by (simp add: encodeRune_def)
  qed
qed


lemma validRune_two:
  fixes s0 s1 :: nat
  shows "validRune ((s0 mod 32) * 64 + s1 mod 64)"
proof -
  have "s0 mod 32 \<le> 31" "s1 mod 64 \<le> 63"
    by simp_all
  then have "(s0 mod 32) * 64 + s1 mod 64 \<le> 31 * 64 + 63"
    by (intro add_mono mult_right_mono) simp_all
  then show ?thesis
    by (simp add: validRune_def)
qed

lemma lead_mod:
  fixes s0 :: nat
  shows "224 \<le> s0 \<Longrightarrow> s0 < 240 \<Longrightarrow> s0 mod 16 = s0 - 224"
    and "240 \<le> s0 \<Longrightarrow> s0 < 248 \<Longrightarrow> s0 mod 8 = s0 - 240"
    and "128 \<le> s0 \<Longrightarrow> s0 \<le> 191 \<Longrightarrow> s0 mod 64 = s0 - 128"
proof -
  show "s0 mod 16 = s0 - 224" if "224 \<le> s0" "s0 < 240"
    using that mod_offset [of "s0 - 224" 16 14] by simp
  show "s0 mod 8 = s0 - 240" if "240 \<le> s0" "s0 < 248"
    using that mod_offset [of "s0 - 240" 8 30] by simp
  show "s0 mod 64 = s0 - 128" if "128 \<le> s0" "s0 \<le> 191"
    using that mod_offset [of "s0 - 128" 64 2] by simp
qed

lemma validRune_three:
  fixes s0 s1 s2 :: nat
  assumes "224 \<le> s0" and "s0 < 240" and "128 \<le> s1" and "s1 \<le> 191"
    and "s0 = 237 \<Longrightarrow> s1 \<le> 159"
  shows "validRune ((s0 mod 16) * 4096 + (s1 mod 64) * 64 + s2 mod 64)"
proof -
  define a where "a = s0 - 224"
  define b where "b = s1 - 128"
  define c where "c = s2 mod 64"
  have a: "s0 mod 16 = a" "a < 16" and b: "s1 mod 64 = b" "b < 64" and c: "c < 64"
    using assms lead_mod(1) [of s0] lead_mod(3) [of s1] by (simp_all add: a_def b_def c_def)
  have hi: "b < 32" if "a = 13"
  proof -
    from that assms(1) have "s0 = 237"
      by (simp add: a_def)
    with assms(3,5) show ?thesis
      by (simp add: b_def)
  qed
  consider "a \<le> 12" | "a = 13" | "14 \<le> a"
    by linarith
  then have "a * 4096 + b * 64 + c \<le> 0x10FFFF
      \<and> \<not> (0xD800 \<le> a * 4096 + b * 64 + c \<and> a * 4096 + b * 64 + c \<le> 0xDFFF)"
  proof cases
    case 1
    with b c show ?thesis by simp
  next
    case 2
    with hi b c show ?thesis by simp
  next
    case 3
    with a b c show ?thesis by simp
  qed
  then show ?thesis
    unfolding validRune_def a(1) b(1) c_def [symmetric] .
qed

lemma validRune_four:
  fixes s0 s1 s2 s3 :: nat
  assumes "240 \<le> s0" and "s0 \<le> 244" and "128 \<le> s1" and "s1 \<le> 191"
    and "s0 = 240 \<Longrightarrow> 144 \<le> s1" and "s0 = 244 \<Longrightarrow> s1 \<le> 143"
  shows "validRune ((s0 mod 8) * 262144 + (s1 mod 64) * 4096 + (s2 mod 64) * 64 + s3 mod 64)"
proof -
  define a where "a = s0 - 240"
  define b where "b = s1 - 128"
  define c where "c = s2 mod 64"
  define d where "d = s3 mod 64"
  have a: "s0 mod 8 = a" "a \<le> 4" and b: "s1 mod 64 = b" "b < 64" and c: "c < 64" and d: "d < 64"
    using assms lead_mod(2) [of s0] lead_mod(3) [of s1]
    by (simp_all add: a_def b_def c_def d_def)
  have lo: "16 \<le> b" if "a = 0"
  proof -
    from that assms(1) have "s0 = 240"
      by (simp add: a_def)
    with assms(5) show ?thesis
      by (simp add: b_def)
  qed
  have hi: "b < 16" if "a = 4"
  proof -
    from that assms(1) have "s0 = 244"
      by (simp add: a_def)
    with assms(3,6) show ?thesis
      by (simp add: b_def)
  qed
  consider "a = 0" | "1 \<le> a" "a \<le> 3" | "a = 4"
    using a(2) by linarith
  then have "a * 262144 + b * 4096 + c * 64 + d \<le> 0x10FFFF
      \<and> 0xDFFF < a * 262144 + b * 4096 + c * 64 + d"
  proof cases
    case 1
    with lo b c d show ?thesis by simp
  next
    case 2
    with b c d show ?thesis by simp
  next
    case 3
    with hi b c d show ?thesis by simp
  qed
  then show ?thesis
    unfolding validRune_def a(1) b(1) c_def [symmetric] d_def [symmetric] by simp
qed

lemma decodeRune_valid: "validRune (fst (decodeRune s))"
proof (cases s)
  case Nil
  then show ?thesis
    by (simp add: validRune_def RuneError_def)
next
  case (Cons c0 rest)
  define s0 :: nat where "s0 = of_char c0"
  define s1 :: nat where "s1 = of_char (rest ! 0)"
  define s2 :: nat where "s2 = of_char (rest ! 1)"
  define s3 :: nat where "s3 = of_char (rest ! 2)"
  have err: "validRune RuneError"
    by (simp add: validRune_def RuneError_def)
  have ascii: "s0 < 128 \<Longrightarrow> validRune s0"
    by (simp add: validRune_def)
  note two = validRune_two [of s0 s1]
  note three = validRune_three [of s0 s1 s2]
  note four = validRune_four [of s0 s1 s2 s3]
  show ?thesis
    unfolding Cons decodeRune.simps Let_def s0_def [symmetric] s1_def [symmetric]
      s2_def [symmetric] s3_def [symmetric]
    using err ascii two three four
    by (auto split: if_splits)
qed


lemma encodeRune_length: "1 \<le> length (encodeRune r)"
  by (simp add: encodeRune_def)

lemma runes_valid: "r \<in> set (runes s) \<Longrightarrow> validRune r"
proof (induction s rule: runes.induct)
  case 1
  then show ?case by simp
next
  case (2 c s)
  obtain r' w where d: "decodeRune (c # s) = (r', w)"
    by force
  have "validRune r'"
    using decodeRune_valid [of "c # s"] d by simp
  then show ?case
    using 2 d by auto
qed

lemma runes_encode:
  assumes "\<forall>r \<in> set rs. validRune r"
  shows "runes (stringOfRunes rs @ rest) = rs @ runes rest"
  using assms
proof (induction rs)
  case Nil
  then show ?case by (simp add: stringOfRunes_def)
next
  case (Cons r rs)
  obtain c cs where e: "encodeRune r = c # cs"
    using encodeRune_length [of r] by (cases "encodeRune r") auto
  have d: "decodeRune (c # cs @ stringOfRunes rs @ rest) = (r, Suc (length cs))"
    using decode_encode [of r "stringOfRunes rs @ rest"] Cons.prems e by simp
  have "runes (stringOfRunes (r # rs) @ rest) = runes (c # cs @ stringOfRunes rs @ rest)"
    by (simp add: stringOfRunes_def e)
  also have "\<dots> = r # runes (stringOfRunes rs @ rest)"
    using d by simp
  also have "\<dots> = (r # rs) @ runes rest"
    using Cons by simp
  finally show ?case .
qed

lemma runes_stringOfRunes:
  assumes "\<forall>r \<in> set rs. validRune r"
  shows "runes (stringOfRunes rs) = rs"
  using runes_encode [OF assms, of "[]"] by simp

subsection \<open>Keywords are windows of the question\<close>

lemma stringOfRunes_append: "stringOfRunes (xs @ ys) = stringOfRunes xs @ stringOfRunes ys"
  by (simp add: stringOfRunes_def)

lemma window_split: "i + len \<le> length xs \<Longrightarrow> xs = take i xs @ take len (drop i xs) @ drop (i + len) xs"
  by (metis add.commute append_take_drop_id drop_drop)

lemma keyword_window:
  assumes "kw \<in> set (extractKeywords lq)"
  shows "\<exists>i len. i + len \<le> length (runes lq) \<and> 2 \<le> len
           \<and> kw = stringOfRunes (take len (drop i (runes lq))) \<and> \<not> hasStopWord kw"
proof -
  from assms obtain i where i: "kw \<in> set (phrasesAt (runes lq) i)" "\<not> hasStopWord kw"
    by (auto simp: extractKeywords_def Let_def)
  then obtain len where len: "len \<in> set (takeWhile (\<lambda>len. i + len \<le> length (runes lq)) [2, 3, 4])"
    "kw = stringOfRunes (take len (drop i (runes lq)))"
    by (auto simp: phrasesAt_def)
  from len(1) have "i + len \<le> length (runes lq)"
    by (rule set_takeWhileD [THEN conjunct2])
  moreover from len(1) have "len \<in> set [2, 3, 4 :: nat]"
    by (rule set_takeWhileD [THEN conjunct1])
  then have "2 \<le> len"
    by auto
  ultimately show ?thesis
    using len(2) i(2) by blast
qed

lemma window_nonstop:
  assumes "w = take len (drop i (runes lq))" and "\<not> hasStopWord (stringOfRunes w)"
  shows "\<forall>r \<in> set w. encodeRune r \<notin> set rerankStopWords"
proof -
  have "set w \<subseteq> set (runes lq)"
    unfolding assms(1) by (meson set_drop_subset set_take_subset subset_trans)
  then have "\<forall>r \<in> set w. validRune r"
    using runes_valid by blast
  then have "runes (stringOfRunes w) = w"
    by (rule runes_stringOfRunes)
  with assms(2) show ?thesis
    by (simp add: hasStopWord_def list_ex_iff)
qed

lemma keyword_in_question:
  assumes "wellFormedUTF8 lq" and "kw \<in> set (extractKeywords lq)"
  shows "sublist kw lq"
proof -
  from keyword_window [OF assms(2)] obtain i len where w: "i + len \<le> length (runes lq)"
    "kw = stringOfRunes (take len (drop i (runes lq)))"
    by blast
  have "stringOfRunes (runes lq)
      = stringOfRunes (take i (runes lq)) @ kw @ stringOfRunes (drop (i + len) (runes lq))"
    unfolding w(2) stringOfRunes_append [symmetric] using window_split [OF w(1)] by simp
  then have "sublist kw (stringOfRunes (runes lq))"
    by (metis sublist_appendI)
  with assms(1) show ?thesis
    by (simp add: wellFormedUTF8_def)
qed

lemma keyword_in_phrase:
  assumes "kw \<in> set (extractKeywords lq)"
  shows "sublist kw (phraseWithoutStopWords lq)"
proof -
  define P where "P = (\<lambda>r. encodeRune r \<notin> set rerankStopWords)"
  from keyword_window [OF assms] obtain i len where w: "i + len \<le> length (runes lq)"
    "kw = stringOfRunes (take len (drop i (runes lq)))" "\<not> hasStopWord kw"
    by blast
  define win where "win = take len (drop i (runes lq))"
  have "\<forall>r \<in> set win. P r"
    unfolding P_def using window_nonstop [of win len i lq] w(2,3) by (simp add: win_def)
  then have keep: "filter P win = win"
    by (simp add: filter_id_conv)
  have "filter P (runes lq)
      = filter P (take i (runes lq)) @ filter P win @ filter P (drop (i + len) (runes lq))"
    unfolding win_def filter_append [symmetric] using window_split [OF w(1)] by simp
  then have "stringOfRunes (filter P (runes lq))
      = stringOfRunes (filter P (take i (runes lq))) @ stringOfRunes win
        @ stringOfRunes (filter P (drop (i + len) (runes lq)))"
    by (simp add: keep stringOfRunes_append)
  then have "stringOfRunes (filter P (runes lq))
      = stringOfRunes (filter P (take i (runes lq))) @ kw
        @ stringOfRunes (filter P (drop (i + len) (runes lq)))"
    by (simp add: w(2) win_def)
  then have "sublist kw (stringOfRunes (filter P (runes lq)))"
    by (metis sublist_appendI)
  then show ?thesis
    by (simp add: phraseWithoutStopWords_def stringOfRunes_def P_def)
qed


subsection \<open>Scores of a passage with every keyword and of a passage with none\<close>

lemma scoreKeywords_none:
  assumes "\<forall>kw \<in> set kws. \<not> keywordMatches lc kw"
  shows "scoreKeywords lc kws (s, m) = (s, m)"
  using assms by (induction kws arbitrary: s m) simp_all

lemma scoreKeywords_all:
  assumes "\<forall>kw \<in> set kws. keywordMatches lc kw"
  shows "\<exists>s'. scoreKeywords lc kws (s, m) = (s', m + length kws) \<and> s + 20 * int (length kws) \<le> s'"
  using assms
proof (induction kws arbitrary: s m)
  case Nil
  then show ?case by simp
next
  case (Cons kw kws)
  define s1 where "s1 = s + 20 + (if keywordBonus lc kw then 10 else 0)"
  from Cons.prems have rest: "\<forall>k \<in> set kws. keywordMatches lc k" and here: "keywordMatches lc kw"
    by simp_all
  from Cons.IH [OF rest, of s1 "m + 1"] obtain s' where
    s': "scoreKeywords lc kws (s1, m + 1) = (s', m + 1 + length kws)" "s1 + 20 * int (length kws) \<le> s'"
    by blast
  have "scoreKeywords lc (kw # kws) (s, m) = scoreKeywords lc kws (s1, m + 1)"
    using here by (simp add: s1_def)
  moreover have "s + 20 * int (length (kw # kws)) \<le> s'"
    using s'(2) by (simp add: s1_def split: if_splits)
  ultimately show ?case
    using s'(1) by simp
qed

lemma docScore_none:
  assumes "\<forall>kw \<in> set kws. \<not> keywordMatches lc kw" and "kws \<noteq> []"
  shows "docScore lq kws lc =
     (if phraseWithoutStopWords lq \<noteq> []
         \<and> (strings_Contains lc (phraseWithoutStopWords lq)
            \<or> strings_Contains (removeByte CHR '' '' lc) (phraseWithoutStopWords lq))
      then (if strings_Contains lc lq then 100 else 0) + 80
      else (if strings_Contains lc lq then 100 else 0))"
  using assms by (simp add: docScore_def Let_def scoreKeywords_none)

lemma docScore_all:
  assumes "\<forall>kw \<in> set kws. strings_Contains lc kw" and "kws \<noteq> []"
  shows "(if strings_Contains lc lq then 100 else 0) + 20 * int (length kws) + 50 \<le> docScore lq kws lc"
proof -
  define score1 :: int where "score1 =
     (if phraseWithoutStopWords lq \<noteq> []
         \<and> (strings_Contains lc (phraseWithoutStopWords lq)
            \<or> strings_Contains (removeByte CHR '' '' lc) (phraseWithoutStopWords lq))
      then (if strings_Contains lc lq then 100 else 0) + 80
      else (if strings_Contains lc lq then 100 else 0))"
  have ge: "(if strings_Contains lc lq then 100 else 0) \<le> score1"
    by (simp add: score1_def)
  from assms(1) have "\<forall>kw \<in> set kws. keywordMatches lc kw"
    by (simp add: keywordMatches_def)
  from scoreKeywords_all [OF this, of score1 0] obtain s' where
    s': "scoreKeywords lc kws (score1, 0) = (s', length kws)" "score1 + 20 * int (length kws) \<le> s'"
    by auto
  have "docScore lq kws lc = s' + 50"
    using assms(2) s'(1) by (simp add: docScore_def Let_def score1_def [symmetric])
  with s'(2) ge show ?thesis
    by linarith
qed

lemma sublist_no_space:
  assumes "sublist kw (removeByte CHR '' '' lc)"
  shows "removeByte CHR '' '' kw = kw"
proof -
  have "set kw \<subseteq> set (removeByte CHR '' '' lc)"
    using assms by (rule set_mono_sublist)
  then have "\<forall>c \<in> set kw. c \<noteq> CHR '' ''"
    by (auto simp: removeByte_def)
  then show ?thesis
    by (simp add: removeByte_def filter_id_conv)
qed

lemma docScore_none_extracted:
  assumes wf: "wellFormedUTF8 lq" and ne: "extractKeywords lq \<noteq> []"
    and none: "\<forall>kw \<in> set (extractKeywords lq). \<not> keywordMatches lc kw"
  shows "docScore lq (extractKeywords lq) lc = 0"
proof -
  from ne obtain kw where kw: "kw \<in> set (extractKeywords lq)"
    by (cases "extractKeywords lq") auto
  with none have no: "\<not> sublist kw lc" "\<not> sublist (removeByte CHR '' '' kw) (removeByte CHR '' '' lc)"
    by (simp_all add: keywordMatches_def strings_Contains_def)
  have q: "sublist kw lq"
    using wf kw by (rule keyword_in_question)
  have p: "sublist kw (phraseWithoutStopWords lq)"
    using kw by (rule keyword_in_phrase)
  have a: "\<not> strings_Contains lc lq"
    using no(1) q unfolding strings_Contains_def by (meson sublist_order.order_trans)
  have b: "\<not> strings_Contains lc (phraseWithoutStopWords lq)"
    using no(1) p unfolding strings_Contains_def by (meson sublist_order.order_trans)
  have c: "\<not> strings_Contains (removeByte CHR '' '' lc) (phraseWithoutStopWords lq)"
  proof
    assume "strings_Contains (removeByte CHR '' '' lc) (phraseWithoutStopWords lq)"
    with p have s: "sublist kw (removeByte CHR '' '' lc)"
      unfolding strings_Contains_def by (meson sublist_order.order_trans)
    with sublist_no_space [OF s] no(2) show False
      by simp
  qed
  show ?thesis
    using docScore_none [OF none ne, of lq] a b c by simp
qed

lemma docScore_none_fallback:
  assumes "\<not> keywordMatches lc lq"
  shows "docScore lq [lq] lc \<le> 80"
proof -
  from assms have "\<not> strings_Contains lc lq"
    by (simp add: keywordMatches_def)
  then show ?thesis
    using docScore_none [of "[lq]" lc lq] assms by simp
qed

lemma score_gap:
  assumes wf: "wellFormedUTF8 lq"
    and every: "\<forall>kw \<in> set (rerankKeywords lq). strings_Contains lcA kw"
    and none: "\<forall>kw \<in> set (rerankKeywords lq). \<not> keywordMatches lcB kw"
  shows "docScore lq (rerankKeywords lq) lcB + 70 \<le> docScore lq (rerankKeywords lq) lcA"
proof (cases "extractKeywords lq = []")
  case True
  then have k: "rerankKeywords lq = [lq]"
    by (simp add: rerankKeywords_def)
  from every k have "strings_Contains lcA lq"
    by simp
  then have "170 \<le> docScore lq [lq] lcA"
    using docScore_all [of "[lq]" lcA lq] by simp
  moreover have "docScore lq [lq] lcB \<le> 80"
    using none k by (intro docScore_none_fallback) simp
  ultimately show ?thesis
    unfolding k by linarith
next
  case False
  then have k: "rerankKeywords lq = extractKeywords lq"
    by (simp add: rerankKeywords_def)
  have len: "1 \<le> int (length (extractKeywords lq))"
    using False by (cases "extractKeywords lq") auto
  have "(if strings_Contains lcA lq then 100 else 0) + 20 * int (length (extractKeywords lq)) + 50
      \<le> docScore lq (extractKeywords lq) lcA"
    using every False unfolding k by (rule docScore_all)
  with len have "70 \<le> docScore lq (extractKeywords lq) lcA"
    by (simp split: if_splits)
  moreover have "docScore lq (extractKeywords lq) lcB = 0"
    using wf False none unfolding k by (rule docScore_none_extracted)
  ultimately show ?thesis
    unfolding k by linarith
qed

lemma full_match_margin:
  assumes "wellFormedUTF8 (lower question)"
    and "a < length allResults" and "b < length allResults"
    and "containsEveryKeyword lower question (allResults ! a)"
    and "matchesNoKeyword lower question (allResults ! b)"
  shows "originalScore (scoredCandidates lower question allResults ! b) + 70
           \<le> originalScore (scoredCandidates lower question allResults ! a)"
    and "length allResults \<le> 70 \<Longrightarrow>
            sd_score (scoredCandidates lower question allResults ! b)
              < sd_score (scoredCandidates lower question allResults ! a)"
proof -
  define SA where "SA = docScore (lower question) (rerankKeywords (lower question))
      (lower (PageContent (allResults ! a)))"
  define SB where "SB = docScore (lower question) (rerankKeywords (lower question))
      (lower (PageContent (allResults ! b)))"
  have gap: "SB + 70 \<le> SA"
    unfolding SA_def SB_def using assms(1,4,5)
    by (intro score_gap) (simp_all add: containsEveryKeyword_def matchesNoKeyword_def list_all_iff)
  have oa: "originalScore (scoredCandidates lower question allResults ! a) = SA"
    and ob: "originalScore (scoredCandidates lower question allResults ! b) = SB"
    using scoredCandidates_nth [OF assms(2), of lower question]
      scoredCandidates_nth [OF assms(3), of lower question]
    by (simp_all add: SA_def SB_def)
  have ia: "sd_index (scoredCandidates lower question allResults ! a) = a"
    and ib: "sd_index (scoredCandidates lower question allResults ! b) = b"
    using scoredCandidates_nth [OF assms(2), of lower question]
      scoredCandidates_nth [OF assms(3), of lower question]
    by simp_all
  have fa: "sd_score (scoredCandidates lower question allResults ! a) = SA - int a"
    using oa ia by (simp add: originalScore_def)
  have fb: "sd_score (scoredCandidates lower question allResults ! b) = SB - int b"
    using ob ib by (simp add: originalScore_def)
  show "originalScore (scoredCandidates lower question allResults ! b) + 70
           \<le> originalScore (scoredCandidates lower question allResults ! a)"
    using gap oa ob by simp
  show "sd_score (scoredCandidates lower question allResults ! b)
              < sd_score (scoredCandidates lower question allResults ! a)"
    if "length allResults \<le> 70"
    using that assms(2) gap fa fb by linarith
qed

lemma searchTopK_bounds: "15 \<le> searchTopK topK" "searchTopK topK \<le> 50"
  by (simp_all add: searchTopK_def Let_def)

text \<open>
  C6. \<open>reRankResults\<close> is called in \<open>Query\<close> and \<open>QueryWithResults\<close> only, on the passages
  that \<open>store.Search\<close> returns when asked for \<open>searchTopK topK\<close> of them: a number between
  15 and 50, and the store returns no more passages than it is asked for. Let the
  lower-cased question be well-formed UTF-8 (as \<open>strings.ToLower\<close> returns it), let the
  text of the passage at position \<open>a\<close> contain every keyword and let the passage at
  position \<open>b\<close> match none. Then the score of \<open>a\<close> is above that of \<open>b\<close>, by at least 70
  before the index is subtracted and strictly after it.
\<close>

theorem C6_full_match_outranks:
  assumes "wellFormedUTF8 (lower question)"
    and "int (length allResults) \<le> searchTopK topK"
    and "a < length allResults" and "b < length allResults"
    and "containsEveryKeyword lower question (allResults ! a)"
    and "matchesNoKeyword lower question (allResults ! b)"
  shows "originalScore (scoredCandidates lower question allResults ! b) + 70
           \<le> originalScore (scoredCandidates lower question allResults ! a)
       \<and> sd_score (scoredCandidates lower question allResults ! b)
           < sd_score (scoredCandidates lower question allResults ! a)"
proof -
  have "length allResults \<le> 70"
    using assms(2) searchTopK_bounds(2) [of topK] by linarith
  then show ?thesis
    using full_match_margin [OF assms(1,3,4,5,6)] by simp
qed

lemma wellFormed_question1: "wellFormedUTF8 (lowerASCII question1)"
  unfolding wellFormedUTF8_def lowerASCII_examples runes_question1
  by (simp add: utf8_eval question1_def)

lemma keywords_docA: "containsEveryKeyword lowerASCII question1 docA"
  by (simp add: containsEveryKeyword_def lowerASCII_examples rerankKeywords_question1 docA_def
      str_eval)

lemma keywords_docB: "matchesNoKeyword lowerASCII question1 docB"
  by (simp add: matchesNoKeyword_def lowerASCII_examples rerankKeywords_question1 docB_def
      keywordMatches_def str_eval)

theorem C6_witness:
  "wellFormedUTF8 (lowerASCII question1)
   \<and> int (length [docB, docA]) \<le> searchTopK 3
   \<and> containsEveryKeyword lowerASCII question1 ([docB, docA] ! 1)
   \<and> matchesNoKeyword lowerASCII question1 ([docB, docA] ! 0)
   \<and> originalScore (scoredCandidates lowerASCII question1 [docB, docA] ! 0) + 70
       \<le> originalScore (scoredCandidates lowerASCII question1 [docB, docA] ! 1)
   \<and> sd_score (scoredCandidates lowerASCII question1 [docB, docA] ! 0)
       < sd_score (scoredCandidates lowerASCII question1 [docB, docA] ! 1)"
proof -
  have h1: "int (length [docB, docA]) \<le> searchTopK 3"
    by (simp add: searchTopK_def wrap64_def)
  have h2: "(1::nat) < length [docB, docA]" and h3: "(0::nat) < length [docB, docA]"
    by simp_all
  have h4: "containsEveryKeyword lowerASCII question1 ([docB, docA] ! 1)"
    using keywords_docA by simp
  have h5: "matchesNoKeyword lowerASCII question1 ([docB, docA] ! 0)"
    using keywords_docB by simp
  from C6_full_match_outranks [OF wellFormed_question1 h1 h2 h3 h4 h5] wellFormed_question1
    h1 h4 h5
  show ?thesis
    by simp
qed

text \<open>
  The bound on the list is used: on a list of 71 passages, more than the store is ever
  asked for, the index eats the whole margin. The passage with the keyword stands at
  index 70 with the score 70, the first passage has no keyword and the score 0, and both
  end with 0.
\<close>

lemma margin_used_up_at_71:
  "length manyCandidates = 71
   \<and> containsEveryKeyword lowerASCII question1 (manyCandidates ! 70)
   \<and> matchesNoKeyword lowerASCII question1 (manyCandidates ! 0)
   \<and> sd_score (scoredCandidates lowerASCII question1 manyCandidates ! 70) = 0
   \<and> sd_score (scoredCandidates lowerASCII question1 manyCandidates ! 0) = 0"
proof -
  have len: "length manyCandidates = 71"
    by (simp add: manyCandidates_def)
  have a: "manyCandidates ! 70 = docA"
    by (simp add: manyCandidates_def nth_append)
  have b: "manyCandidates ! 0 = docB"
    by (simp add: manyCandidates_def nth_append)
  have sa: "sd_score (scoredCandidates lowerASCII question1 manyCandidates ! 70) = 0"
    using scoreDocs_nth [of 70 manyCandidates lowerASCII question1 "[''ab'']" 0] len a
    by (simp add: scoredCandidates_def lowerASCII_examples rerankKeywords_question1 docA_def
        docScore_docA)
  have sb: "sd_score (scoredCandidates lowerASCII question1 manyCandidates ! 0) = 0"
    using scoreDocs_nth [of 0 manyCandidates lowerASCII question1 "[''ab'']" 0] len b
    by (simp add: scoredCandidates_def lowerASCII_examples rerankKeywords_question1 docB_def
        docScore_docB)
  from len a b sa sb keywords_docA keywords_docB show ?thesis
    by simp
qed

end
